theory Spec2Isabelle
  imports Main
begin

section \<open>JavaScript string helpers\<close>

text \<open>
  Strings are lists of 8-bit characters: the development covers texts whose UTF-16 code
  units are below 256. In that range \<open>String.prototype.trim\<close> removes the characters
  TAB, LF, VT, FF, CR, SPACE and NBSP, and the regular-expression classes \<open>\d\<close> and
  \<open>\D\<close> are the ASCII digits and their complement.
\<close>

definition is_digit :: "char \<Rightarrow> bool" where
  "is_digit c = (c \<in> set ''0123456789'')"

definition is_space :: "char \<Rightarrow> bool" where
  "is_space c = (c \<in> set [CHR 0x09, CHR 0x0A, CHR 0x0B, CHR 0x0C, CHR 0x0D, CHR 0x20, CHR 0xA0])"

definition trim :: "string \<Rightarrow> string" where
  "trim s = rev (dropWhile is_space (rev (dropWhile is_space s)))"

text \<open>\<open>a || b\<close> on strings: the empty string is falsy.\<close>

definition or_else :: "string \<Rightarrow> string \<Rightarrow> string" where
  "or_else a b = (if a = [] then b else a)"

text \<open>\<open>a || null\<close> on strings.\<close>

definition or_null :: "string \<Rightarrow> string option" where
  "or_null a = (if a = [] then None else Some a)"

text \<open>\<open>s.replace(/\D/g, '')\<close>: every non-digit character is removed.\<close>

definition strip_non_digits :: "string \<Rightarrow> string" where
  "strip_non_digits s = filter is_digit s"

text \<open>
  \<open>s.match(/(\d+(?:,\d+)*)/)\<close>: the leftmost match starts at the first digit of \<open>s\<close>;
  \<open>digit_groups\<close> is the greedy rest of the match after a digit, which continues over
  digits and over a comma that is directly followed by a digit. \<open>None\<close> is the
  \<open>null\<close> of the source (no digit in \<open>s\<close>).
\<close>

fun digit_groups :: "string \<Rightarrow> string" where
  "digit_groups [] = []"
| "digit_groups [c] = (if is_digit c then [c] else [])"
| "digit_groups (c # d # r) =
     (if is_digit c then c # digit_groups (d # r)
      else if c = CHR '','' \<and> is_digit d then c # d # digit_groups r
      else [])"

definition match_number :: "string \<Rightarrow> string option" where
  "match_number s =
     (case dropWhile (\<lambda>c. \<not> is_digit c) s of
        [] \<Rightarrow> None
      | d # r \<Rightarrow> Some (d # digit_groups r))"

section \<open>The scraper's data model\<close>

record repo =
  repo_name :: string
  repo_description :: "string option"
  repo_language :: "string option"

text \<open>
  The \<open>raw_data\<close> object of a user: \<open>{}\<close> in a search candidate,
  \<open>{ error }\<close> after a failed profile scrape, the four profile fields otherwise.
\<close>

datatype raw_data =
    RawEmpty
  | RawError string
  | RawProfile (followers: string) (following: string)
      (organizations: "string list") (profile_readme: "string option")

text \<open>
  A user object. \<open>contribution_count\<close> and \<open>pinned_repositories\<close> are absent
  (\<open>None\<close>) in a search candidate and set by the profile scrape. The \<open>ai_insights\<close>
  field is written by the route handler only and is left out.
\<close>

record user =
  username :: string
  display_name :: "string option"
  profile_url :: string
  bio :: "string option"
  raw_data :: raw_data
  contribution_count :: "string option"
  pinned_repositories :: "repo list option"

section \<open>Profile extraction\<close>

text \<open>
  The document queries of \<open>scrapeUserProfile\<close> are made by the cheerio library; the
  records below hold what those queries return (the \<open>.text()\<close> of each selection, the
  elements of each selector), and the functions after them are the source's own
  processing of these texts.
\<close>

record pinned_dom =
  span_repo :: string
  itemprop_name :: string
  class_repo :: string
  pinned_item_desc :: string
  color_fg_muted :: string
  itemprop_language :: string
  language_color_next :: string

record profile_dom =
  h2_contributions :: string
  yearly_contributions :: "string option"
  pinned_by_selector :: "pinned_dom list list"
  followers_link :: string
  following_link :: string
  organization_elems :: "(string option \<times> string) list"
  js_user_profile_bio :: string
  user_profile_bio :: string
  itemprop_description :: string

text \<open>
  The contribution count: the number matched in the heading text, else the number
  matched in the \<open>.js-yearly-contributions\<close> element when there is one, else \<open>'0'\<close>.
\<close>

definition extract_contribution_count :: "string \<Rightarrow> string option \<Rightarrow> string" where
  "extract_contribution_count contribText altContrib =
     (case match_number contribText of
        Some m \<Rightarrow> m
      | None \<Rightarrow>
          (case altContrib of
             None \<Rightarrow> ''0''
           | Some altContribText \<Rightarrow>
               (case match_number altContribText of Some m \<Rightarrow> m | None \<Rightarrow> ''0'')))"

text \<open>\<open>text.replace(/\D/g, '') || '0'\<close>, used for followers and following.\<close>

definition extract_count :: "string \<Rightarrow> string" where
  "extract_count t = or_else (strip_non_digits t) ''0''"

text \<open>The first selector with elements wins; the selection is empty when none has any.\<close>

fun first_nonempty :: "'a list list \<Rightarrow> 'a list" where
  "first_nonempty [] = []"
| "first_nonempty (l # ls) = (if l \<noteq> [] then l else first_nonempty ls)"

definition extract_pinned :: "pinned_dom \<Rightarrow> repo" where
  "extract_pinned el =
     (let repoName = or_else (or_else (trim (span_repo el)) (trim (itemprop_name el)))
                       (trim (class_repo el));
          description =
            (if trim (pinned_item_desc el) \<noteq> [] then trim (pinned_item_desc el)
             else takeWhile (\<lambda>c. c \<noteq> CHR 0x0A) (trim (color_fg_muted el)));
          language = or_else (trim (itemprop_language el)) (trim (language_color_next el))
      in \<lparr> repo_name = or_else repoName ''Unknown Repository'',
           repo_description = or_null description,
           repo_language = or_null language \<rparr>)"

definition extract_organization :: "string option \<times> string \<Rightarrow> string" where
  "extract_organization el =
     (case fst el of
        Some label \<Rightarrow> or_else label (trim (snd el))
      | None \<Rightarrow> trim (snd el))"

definition extract_profile :: "user \<Rightarrow> profile_dom \<Rightarrow> user" where
  "extract_profile u doc =
     u \<lparr> contribution_count :=
           Some (extract_contribution_count (h2_contributions doc) (yearly_contributions doc)),
         pinned_repositories :=
           Some (map extract_pinned (first_nonempty (pinned_by_selector doc))),
         raw_data :=
           RawProfile
             (extract_count (followers_link doc))
             (extract_count (following_link doc))
             (filter (\<lambda>orgName. orgName \<noteq> [])
                (map extract_organization (organization_elems doc)))
             (or_null (or_else (or_else (trim (js_user_profile_bio doc))
                                  (trim (user_profile_bio doc)))
                         (trim (itemprop_description doc)))) \<rparr>"

section \<open>The scraper: state, network and effects\<close>

text \<open>
  The requests the scraper makes: the connectivity test of \<open>https://github.com/\<close>,
  the search page of a query and page number, and a candidate's \<open>profile_url\<close>.
\<close>

datatype url = HomeUrl | SearchUrl string nat | ProfileUrl string

text \<open>
  The keys of the in-memory cache, \<open>users:${query}:page:${page}\<close> and
  \<open>profile:${username}\<close>. The two templates never produce the same string (they
  differ in the first character) and each determines its arguments (the page is the
  decimal numeral after the last colon), so the single \<open>Map\<close> of the source is
  kept as one map for each kind of key.
\<close>

datatype cache_key = UsersKey string nat | ProfileKey string

text \<open>
  What the scraper does to the outside, in order: a request issued, a \<open>sleep\<close>
  awaited, a cache hit (which the source logs and which issues no request).
\<close>

datatype event = Get url | Sleep nat | CacheHit cache_key

text \<open>
  The outcome of \<open>client.get\<close>: the promise rejects with an error message (network
  failure, timeout, non-success status) or resolves with the response body.
\<close>

datatype response = Throws string | Body string

text \<open>The outcome of an awaited promise.\<close>

datatype 'a outcome = Fulfilled 'a | Rejected string

record scraper =
  pageCache :: "string \<times> nat \<Rightarrow> user list option"
  profileCache :: "string \<Rightarrow> user option"
  rateLimitDelay :: nat
  batchSize :: nat
  trace :: "event list"

text \<open>The constructor.\<close>

definition new_scraper :: scraper where
  "new_scraper =
     \<lparr> pageCache = (\<lambda>k. None), profileCache = (\<lambda>k. None),
       rateLimitDelay = 3000, batchSize = 3, trace = [] \<rparr>"

text \<open>
  Everything outside the program: the response to the connectivity test, to the search
  page \<open>p\<close> and to the profile request of the candidate at position \<open>i\<close> of the list
  being processed, and the two document extractions done with cheerio (\<open>Inl\<close> is an
  exception thrown while a document is processed). \<open>load_users\<close> stands for lines
  125 to 303 of \<open>scrapeUsersPage\<close>, \<open>load_profile\<close> for the selections of
  \<open>scrapeUserProfile\<close>.
\<close>

record world =
  get_home :: response
  get_page :: "nat \<Rightarrow> response"
  get_profile :: "nat \<Rightarrow> response"
  load_users :: "string \<Rightarrow> string + user list"
  load_profile :: "string \<Rightarrow> string + profile_dom"

definition log_event :: "event \<Rightarrow> scraper \<Rightarrow> scraper" where
  "log_event e s = s \<lparr> trace := trace s @ [e] \<rparr>"

section \<open>scrapeUserProfile\<close>

text \<open>
  An \<open>async\<close> function runs synchronously up to its first \<open>await\<close>. The part of
  \<open>scrapeUserProfile\<close> before the request is \<open>scrapeUserProfile_begin\<close>: a cache hit
  returns the cached record (\<open>Some\<close>), a miss issues the request (\<open>None\<close>: the call
  is waiting for the response).
\<close>

definition scrapeUserProfile_begin :: "user \<Rightarrow> scraper \<Rightarrow> user option \<times> scraper" where
  "scrapeUserProfile_begin u s =
     (case profileCache s (username u) of
        Some cached \<Rightarrow> (Some cached, log_event (CacheHit (ProfileKey (username u))) s)
      | None \<Rightarrow> (None, log_event (Get (ProfileUrl (profile_url u))) s))"

text \<open>
  The record returned once the response is there: the \<open>catch\<close> branch for a rejected
  request or an exception while extracting, the candidate itself for an empty body, the
  enhanced user otherwise.
\<close>

definition profile_result :: "world \<Rightarrow> response \<Rightarrow> user \<Rightarrow> user" where
  "profile_result w r u =
     (case r of
        Throws msg \<Rightarrow> u \<lparr> raw_data := RawError msg \<rparr>
      | Body data \<Rightarrow>
          if data = [] then u
          else (case load_profile w data of
                  Inl msg \<Rightarrow> u \<lparr> raw_data := RawError msg \<rparr>
                | Inr doc \<Rightarrow> extract_profile u doc))"

text \<open>Only the enhanced user of a successful scrape is stored in the cache.\<close>

definition profile_cached :: "world \<Rightarrow> response \<Rightarrow> bool" where
  "profile_cached w r =
     (case r of
        Throws msg \<Rightarrow> False
      | Body data \<Rightarrow> data \<noteq> [] \<and> (case load_profile w data of Inl msg \<Rightarrow> False | Inr doc \<Rightarrow> True))"

definition scrapeUserProfile_end :: "world \<Rightarrow> response \<Rightarrow> user \<Rightarrow> scraper \<Rightarrow> user \<times> scraper" where
  "scrapeUserProfile_end w r u s =
     (let enhancedUser = profile_result w r u
      in (enhancedUser,
          if profile_cached w r
          then s \<lparr> profileCache := (profileCache s)(username u := Some enhancedUser) \<rparr>
          else s))"

text \<open>One call awaited on its own; \<open>i\<close> is the position the response is taken from.\<close>

definition scrapeUserProfile :: "world \<Rightarrow> nat \<Rightarrow> user \<Rightarrow> scraper \<Rightarrow> user \<times> scraper" where
  "scrapeUserProfile w i u s =
     (case scrapeUserProfile_begin u s of
        (Some cached, s1) \<Rightarrow> (cached, s1)
      | (None, s1) \<Rightarrow> scrapeUserProfile_end w (get_profile w i) u s1)"

section \<open>processUserProfilesInBatches\<close>

text \<open>
  \<open>batch.map(user => this.scrapeUserProfile(user))\<close> starts every call of the batch
  before any response is handled: all cache lookups of a batch see the cache as it is
  when the batch starts.
\<close>

fun begin_profiles :: "user list \<Rightarrow> scraper \<Rightarrow> user option list \<times> scraper" where
  "begin_profiles [] s = ([], s)"
| "begin_profiles (u # us) s =
     (case scrapeUserProfile_begin u s of
        (st, s1) \<Rightarrow> (case begin_profiles us s1 of (sts, s2) \<Rightarrow> (st # sts, s2)))"

text \<open>
  \<open>await Promise.all(batchPromises)\<close>: the results in the order of the batch. The
  responses are handled in the order of the batch as well (the order in which they
  arrive only decides which of two records of one username stays in the cache).
\<close>

fun end_profiles ::
  "world \<Rightarrow> nat \<Rightarrow> (user \<times> user option) list \<Rightarrow> scraper \<Rightarrow> user list \<times> scraper" where
  "end_profiles w i [] s = ([], s)"
| "end_profiles w i ((u, Some cached) # rest) s =
     (case end_profiles w (Suc i) rest s of (xs, s2) \<Rightarrow> (cached # xs, s2))"
| "end_profiles w i ((u, None) # rest) s =
     (case scrapeUserProfile_end w (get_profile w i) u s of
        (x, s1) \<Rightarrow> (case end_profiles w (Suc i) rest s1 of (xs, s2) \<Rightarrow> (x # xs, s2)))"

definition scrape_batch :: "world \<Rightarrow> nat \<Rightarrow> user list \<Rightarrow> scraper \<Rightarrow> user list \<times> scraper" where
  "scrape_batch w i batch s =
     (case begin_profiles batch s of
        (sts, s1) \<Rightarrow> end_profiles w i (zip batch sts) s1)"

text \<open>
  The \<open>for\<close> loop over \<open>i\<close>, with \<open>detailedUsers\<close> as accumulator. With a batch
  size of 0 the index never advances and the loop does not return: the result is
  \<open>None\<close> then.
\<close>

partial_function (option) batch_loop ::
  "world \<Rightarrow> user list \<Rightarrow> nat \<Rightarrow> user list \<Rightarrow> scraper \<Rightarrow> (user list \<times> scraper) option" where
  "batch_loop w users i detailedUsers s =
     (if i < length users then
        (case scrape_batch w i (take (batchSize s) (drop i users)) s of
           (batchResults, s1) \<Rightarrow>
             batch_loop w users (i + batchSize s) (detailedUsers @ batchResults)
               (if i + batchSize s < length users
                then log_event (Sleep (rateLimitDelay s1)) s1 else s1))
      else Some (detailedUsers, s))"

definition processUserProfilesInBatches ::
  "world \<Rightarrow> user list \<Rightarrow> scraper \<Rightarrow> (user list \<times> scraper) option" where
  "processUserProfilesInBatches w users s = batch_loop w users 0 [] s"

section \<open>scrapeUsersPage and fetchAllUsers\<close>

text \<open>
  \<open>scrapeUsersPage\<close> in the same two parts: the cache lookup and the request, then
  the handling of the response. A rejected request and an exception while the page is
  processed end in the \<open>catch\<close> branch, which returns \<open>[]\<close>, as an empty body does;
  a processed page is cached and followed by a \<open>sleep\<close>.
\<close>

definition scrapeUsersPage_begin :: "string \<Rightarrow> nat \<Rightarrow> scraper \<Rightarrow> user list option \<times> scraper" where
  "scrapeUsersPage_begin query page s =
     (case pageCache s (query, page) of
        Some cached \<Rightarrow> (Some cached, log_event (CacheHit (UsersKey query page)) s)
      | None \<Rightarrow> (None, log_event (Get (SearchUrl query page)) s))"

definition scrapeUsersPage_end ::
  "world \<Rightarrow> response \<Rightarrow> string \<Rightarrow> nat \<Rightarrow> scraper \<Rightarrow> user list \<times> scraper" where
  "scrapeUsersPage_end w r query page s =
     (case r of
        Throws msg \<Rightarrow> ([], s)
      | Body data \<Rightarrow>
          if data = [] then ([], s)
          else (case load_users w data of
                  Inl msg \<Rightarrow> ([], s)
                | Inr users \<Rightarrow>
                    (users,
                     log_event (Sleep (rateLimitDelay s))
                       (s \<lparr> pageCache := (pageCache s)((query, page) := Some users) \<rparr>))))"

definition scrapeUsersPage :: "world \<Rightarrow> string \<Rightarrow> nat \<Rightarrow> scraper \<Rightarrow> user list \<times> scraper" where
  "scrapeUsersPage w query page s =
     (case scrapeUsersPage_begin query page s of
        (Some cached, s1) \<Rightarrow> (cached, s1)
      | (None, s1) \<Rightarrow> scrapeUsersPage_end w (get_page w page) query page s1)"

text \<open>The loop \<open>for (let page = 1; page <= pages; page++)\<close> that starts every page.\<close>

fun begin_pages :: "string \<Rightarrow> nat list \<Rightarrow> scraper \<Rightarrow> (nat \<times> user list option) list \<times> scraper" where
  "begin_pages query [] s = ([], s)"
| "begin_pages query (page # ps) s =
     (case scrapeUsersPage_begin query page s of
        (st, s1) \<Rightarrow> (case begin_pages query ps s1 of (sts, s2) \<Rightarrow> ((page, st) # sts, s2)))"

text \<open>\<open>await Promise.all(promises)\<close>: one candidate list for each page, in page order.\<close>

fun end_pages ::
  "world \<Rightarrow> string \<Rightarrow> (nat \<times> user list option) list \<Rightarrow> scraper \<Rightarrow> user list list \<times> scraper" where
  "end_pages w query [] s = ([], s)"
| "end_pages w query ((page, Some cached) # rest) s =
     (case end_pages w query rest s of (xs, s2) \<Rightarrow> (cached # xs, s2))"
| "end_pages w query ((page, None) # rest) s =
     (case scrapeUsersPage_end w (get_page w page) query page s of
        (x, s1) \<Rightarrow> (case end_pages w query rest s1 of (xs, s2) \<Rightarrow> (x # xs, s2)))"

text \<open>\<open>users.push(...pageUsers)\<close> for each page result: the lists are concatenated.\<close>

definition fetchAllUsers :: "world \<Rightarrow> string \<Rightarrow> nat \<Rightarrow> scraper \<Rightarrow> user list \<times> scraper" where
  "fetchAllUsers w query pages s =
     (case begin_pages query [1..<Suc pages] s of
        (sts, s1) \<Rightarrow>
          (case end_pages w query sts s1 of
             (pageResults, s2) \<Rightarrow> (concat pageResults, s2)))"

section \<open>searchUsers\<close>

definition testGitHubConnectivity :: "world \<Rightarrow> scraper \<Rightarrow> bool outcome \<times> scraper" where
  "testGitHubConnectivity w s =
     (let s1 = log_event (Get HomeUrl) s
      in case get_home w of
           Throws msg \<Rightarrow> (Rejected (''Cannot access GitHub: '' @ msg), s1)
         | Body data \<Rightarrow>
             if data = []
             then (Rejected (''Cannot access GitHub: Received empty response from GitHub''), s1)
             else (Fulfilled True, s1))"

text \<open>
  The \<open>query\<close> argument is any JavaScript value: a string, or a value of another type
  (for which \<open>typeof query !== 'string'\<close> holds).
\<close>

datatype query_arg = QString string | QOther

definition invalid_query :: "query_arg \<Rightarrow> bool" where
  "invalid_query q =
     (case q of
        QOther \<Rightarrow> True
      | QString str \<Rightarrow> str = [] \<or> length (trim str) = 0)"

text \<open>
  \<open>searchUsers\<close>: the promise it returns and the scraper afterwards; \<open>None\<close> when the
  batch loop does not return. The \<open>pages\<close> argument is the number of iterations of
  the page loop.
\<close>

definition searchUsers ::
  "world \<Rightarrow> query_arg \<Rightarrow> nat \<Rightarrow> scraper \<Rightarrow> (user list outcome \<times> scraper) option" where
  "searchUsers w q pages s =
     (case q of
        QOther \<Rightarrow> Some (Fulfilled [], s)
      | QString query \<Rightarrow>
          if invalid_query q then Some (Fulfilled [], s)
          else (case testGitHubConnectivity w s of
                  (Rejected msg, s1) \<Rightarrow> Some (Fulfilled [], s1)
                | (Fulfilled ok, s1) \<Rightarrow>
                    (case fetchAllUsers w query pages s1 of
                       (users, s2) \<Rightarrow>
                         if length users = 0 then Some (Fulfilled [], s2)
                         else (case processUserProfilesInBatches w users s2 of
                                 None \<Rightarrow> None
                               | Some (detailedUsers, s3) \<Rightarrow> Some (Fulfilled detailedUsers, s3)))))"

section \<open>The response parser\<close>

text \<open>
  The values of \<open>JSON.parse\<close>. A number is kept as its token and a string as the
  characters between its quotes, escapes not decoded.
\<close>

datatype json =
    JNull | JBool bool | JNumber string | JString string
  | JArray "json list" | JObject "(string \<times> json) list"

definition is_json_ws :: "char \<Rightarrow> bool" where
  "is_json_ws c = (c \<in> set [CHR 0x20, CHR 0x09, CHR 0x0A, CHR 0x0D])"

definition skip_ws :: "string \<Rightarrow> string" where
  "skip_ws s = dropWhile is_json_ws s"

definition is_hex :: "char \<Rightarrow> bool" where
  "is_hex c = (c \<in> set ''0123456789abcdefABCDEF'')"

text \<open>
  The characters of a string after its opening quote, up to the closing quote: no
  control character, and a backslash only in one of the escapes of the grammar.
\<close>

fun json_chars :: "string \<Rightarrow> (string \<times> string) option" where
  "json_chars [] = None"
| "json_chars (c # r) =
     (if c = CHR 0x22 then Some ([], r)
      else if c = CHR 0x5C then
        (case r of
           [] \<Rightarrow> None
         | e # r1 \<Rightarrow>
             if e \<in> set [CHR 0x22, CHR 0x5C, CHR ''/'', CHR ''b'', CHR ''f'', CHR ''n'', CHR ''r'', CHR ''t'']
             then map_option (\<lambda>(t, rest). (c # e # t, rest)) (json_chars r1)
             else if e = CHR ''u'' \<and> length r1 \<ge> 4 \<and> list_all is_hex (take 4 r1)
             then map_option (\<lambda>(t, rest). (c # e # take 4 r1 @ t, rest)) (json_chars (drop 4 r1))
             else None)
      else if (of_char c :: nat) < 0x20 then None
      else map_option (\<lambda>(t, rest). (c # t, rest)) (json_chars r))"


text \<open>
  A number token: an optional minus sign, \<open>0\<close> or a digit sequence without leading
  zero, an optional fraction, an optional exponent. The token is kept as written.
\<close>

definition json_number :: "string \<Rightarrow> (string \<times> string) option" where
  "json_number s =
     (let sgn = takeWhile (\<lambda>c. c = CHR ''-'') (take 1 s);
          s1 = drop (length sgn) s
      in case s1 of
           [] \<Rightarrow> None
         | c # r \<Rightarrow>
             if \<not> is_digit c then None
             else
               let ds = (if c = CHR ''0'' then [] else takeWhile is_digit r);
                   s2 = drop (length ds) r;
                   frac = (case s2 of
                             [] \<Rightarrow> Some []
                           | p # r2 \<Rightarrow>
                               if p = CHR ''.''
                               then (if takeWhile is_digit r2 = [] then None
                                     else Some (p # takeWhile is_digit r2))
                               else Some [])
               in case frac of
                    None \<Rightarrow> None
                  | Some fr \<Rightarrow>
                      let s3 = drop (length fr) s2;
                          ex = (case s3 of
                                  [] \<Rightarrow> Some []
                                | e # r3 \<Rightarrow>
                                    if e = CHR ''e'' \<or> e = CHR ''E''
                                    then
                                      (let sg = takeWhile (\<lambda>c. c = CHR ''+'' \<or> c = CHR ''-'') (take 1 r3);
                                           es = takeWhile is_digit (drop (length sg) r3)
                                       in if es = [] then None else Some (e # sg @ es))
                                    else Some [])
                      in case ex of
                           None \<Rightarrow> None
                         | Some ep \<Rightarrow> Some (sgn @ c # ds @ fr @ ep, drop (length ep) s3))"

definition starts_with :: "string \<Rightarrow> string \<Rightarrow> bool" where
  "starts_with s p = (take (length p) s = p)"

text \<open>
  Values, array elements and object members by recursive descent. The first argument
  bounds the depth of the recursion; every recursive call but the first of an array or
  object follows at least one consumed character, so twice the length of the text is
  never reached.
\<close>

fun json_value :: "nat \<Rightarrow> string \<Rightarrow> (json \<times> string) option"
  and json_elements :: "nat \<Rightarrow> string \<Rightarrow> (json list \<times> string) option"
  and json_members :: "nat \<Rightarrow> string \<Rightarrow> ((string \<times> json) list \<times> string) option" where
  "json_value 0 s = None"
| "json_value (Suc n) s =
     (case skip_ws s of
        [] \<Rightarrow> None
      | c # r \<Rightarrow>
          if c = CHR ''{'' then
            (if starts_with (skip_ws r) ''}'' then Some (JObject [], drop 1 (skip_ws r))
             else map_option (\<lambda>(ms, rest). (JObject ms, rest)) (json_members n r))
          else if c = CHR ''['' then
            (if starts_with (skip_ws r) '']'' then Some (JArray [], drop 1 (skip_ws r))
             else map_option (\<lambda>(vs, rest). (JArray vs, rest)) (json_elements n r))
          else if c = CHR 0x22 then map_option (\<lambda>(t, rest). (JString t, rest)) (json_chars r)
          else if starts_with (c # r) ''true'' then Some (JBool True, drop 4 (c # r))
          else if starts_with (c # r) ''false'' then Some (JBool False, drop 5 (c # r))
          else if starts_with (c # r) ''null'' then Some (JNull, drop 4 (c # r))
          else map_option (\<lambda>(t, rest). (JNumber t, rest)) (json_number (c # r)))"
| "json_elements 0 s = None"
| "json_elements (Suc n) s =
     (case json_value n s of
        None \<Rightarrow> None
      | Some (v, r) \<Rightarrow>
          (case skip_ws r of
             [] \<Rightarrow> None
           | c # r1 \<Rightarrow>
               if c = CHR '','' then map_option (\<lambda>(vs, rest). (v # vs, rest)) (json_elements n r1)
               else if c = CHR '']'' then Some ([v], r1)
               else None))"
| "json_members 0 s = None"
| "json_members (Suc n) s =
     (case skip_ws s of
        [] \<Rightarrow> None
      | q # r \<Rightarrow>
          if q \<noteq> CHR 0x22 then None
          else (case json_chars r of
                  None \<Rightarrow> None
                | Some (k, r1) \<Rightarrow>
                    (case skip_ws r1 of
                       [] \<Rightarrow> None
                     | c # r2 \<Rightarrow>
                         if c \<noteq> CHR '':'' then None
                         else (case json_value n r2 of
                                 None \<Rightarrow> None
                               | Some (v, r3) \<Rightarrow>
                                   (case skip_ws r3 of
                                      [] \<Rightarrow> None
                                    | d # r4 \<Rightarrow>
                                        if d = CHR '','' then
                                          map_option (\<lambda>(ms, rest). ((k, v) # ms, rest)) (json_members n r4)
                                        else if d = CHR ''}'' then Some ([(k, v)], r4)
                                        else None)))))"

text \<open>\<open>JSON.parse\<close>: \<open>None\<close> is the \<open>SyntaxError\<close> it throws.\<close>

definition JSON_parse :: "string \<Rightarrow> json option" where
  "JSON_parse text =
     (case json_value (2 * length text + 2) text of
        None \<Rightarrow> None
      | Some (v, rest) \<Rightarrow> if skip_ws rest = [] then Some v else None)"

text \<open>
  \<open>aiResponse.match(/\{[\s\S]*\}/)\<close>: the text from the first opening brace to
  the last closing brace after it; \<open>None\<close> when there is no such pair.
\<close>

definition json_match :: "string \<Rightarrow> string option" where
  "json_match s =
     (case dropWhile (\<lambda>c. c \<noteq> CHR ''{'') s of
        [] \<Rightarrow> None
      | b # r \<Rightarrow>
          if CHR ''}'' \<in> set r
          then Some (b # rev (dropWhile (\<lambda>c. c \<noteq> CHR ''}'') (rev r)))
          else None)"

text \<open>\<open>s.split(sep)\<close> for a separator of one character.\<close>

fun split_on :: "char \<Rightarrow> string \<Rightarrow> string list" where
  "split_on sep [] = [[]]"
| "split_on sep (c # r) =
     (if c = sep then [] # split_on sep r
      else (case split_on sep r of
              [] \<Rightarrow> [[c]]
            | l # ls \<Rightarrow> (c # l) # ls))"

text \<open>\<open>s.includes(sub)\<close>.\<close>

fun str_includes :: "string \<Rightarrow> string \<Rightarrow> bool" where
  "str_includes [] sub = (sub = [])"
| "str_includes (c # r) sub = (starts_with (c # r) sub \<or> str_includes r sub)"

text \<open>\<open>line.split(':')[1]?.trim() || ''\<close>: the trimmed text between the first two colons.\<close>

definition after_colon :: "string \<Rightarrow> string" where
  "after_colon line =
     (case split_on (CHR '':'') line of
        p0 # p1 # ps \<Rightarrow> trim p1
      | _ \<Rightarrow> [])"

text \<open>The inner \<open>while\<close> loop of \<open>extractSection\<close> over the lines after the label.\<close>

fun continuation :: "string list \<Rightarrow> string \<Rightarrow> string" where
  "continuation [] content = content"
| "continuation (l # ls) content =
     (if \<not> str_includes l '':'' \<and> trim l \<noteq> []
      then continuation ls (content @ '' '' @ trim l)
      else content)"

fun extractSection :: "string list \<Rightarrow> string \<Rightarrow> string" where
  "extractSection [] sectionName = []"
| "extractSection (l # ls) sectionName =
     (if str_includes l sectionName then continuation ls (after_colon l)
      else extractSection ls sectionName)"

text \<open>
  The three shapes of the object \<open>parseAIResponse\<close> returns: the parsed block with
  \<open>raw_response\<close> and \<open>timestamp\<close> set on it, the five sections of the line scan,
  and the error object of the outer \<open>catch\<close>.
\<close>

datatype insight =
    Parsed "(string \<times> json) list" string string
  | Sections (primary_skills: string) (tech_stack: string) (experience_level: string)
      (notable_contributions: string) (professional_summary: string)
      (sections_raw_response: string) (sections_timestamp: string)
  | Failed (error: string) (failed_raw_response: string) (failed_timestamp: string)

text \<open>The line scan, reached when the response has no brace-delimited block.\<close>

definition line_scan :: "string \<Rightarrow> string \<Rightarrow> insight" where
  "line_scan now aiResponse =
     (let lines = split_on (CHR 0x0A) aiResponse
      in Sections
           (extractSection lines ''Primary skills'')
           (extractSection lines ''Tech stack'')
           (extractSection lines ''Experience level'')
           (extractSection lines ''Notable contributions'')
           (extractSection lines ''Brief professional summary'')
           aiResponse now)"

text \<open>
  \<open>parseAIResponse\<close>; \<open>now\<close> is \<open>new Date().toISOString()\<close>. The inner \<open>catch\<close>
  rethrows the error of \<open>JSON.parse\<close>, which the outer \<open>catch\<close> turns into the
  error object. A text that starts with a brace parses to an object or not at all.
\<close>

definition parseAIResponse :: "string \<Rightarrow> string \<Rightarrow> insight" where
  "parseAIResponse now aiResponse =
     (case json_match aiResponse of
        Some jsonString \<Rightarrow>
          (case JSON_parse jsonString of
             Some (JObject insights) \<Rightarrow> Parsed insights aiResponse now
           | _ \<Rightarrow> Failed ''Failed to parse AI response'' aiResponse now)
      | None \<Rightarrow> line_scan now aiResponse)"

section \<open>The enrichment queue\<close>

text \<open>
  The outcome of the request to the generation API: the request fails (network or HTTP
  error, timeout) or a response arrives, whose text
  \<open>response.data?.candidates?.[0]?.content?.parts?.[0]?.text\<close> is empty when missing.
\<close>

datatype api_response = ApiError string | ApiContent string

definition sendToGemini :: "api_response \<Rightarrow> string outcome" where
  "sendToGemini r =
     (case r of
        ApiError msg \<Rightarrow> Rejected msg
      | ApiContent content \<Rightarrow>
          if content = [] then Rejected ''Empty response from Gemini'' else Fulfilled content)"

definition maxAttempts :: nat where
  "maxAttempts = 3"

subsection \<open>The handling of one item\<close>

text \<open>What the body of \<open>processQueue\<close> does for the item it took, in order.\<close>

datatype effect =
    Send string
  | Backoff nat
  | Resolve string
  | Reject string
  | ClearFlag
  | SetTimeout nat

text \<open>
  The \<open>while\<close> loop with its inner \<open>try\<close>; \<open>send k\<close> is the outcome of the request
  made after \<open>k\<close> failed attempts. The result is the effects of the loop and the error
  it throws, if any.
\<close>

function attempt_loop ::
  "(nat \<Rightarrow> api_response) \<Rightarrow> nat \<Rightarrow> string \<Rightarrow> nat \<Rightarrow> effect list \<times> string option" where
  "attempt_loop send delay prompt attempts =
     (if attempts < maxAttempts then
        (case sendToGemini (send attempts) of
           Fulfilled response \<Rightarrow> ([Send prompt, Resolve response], None)
         | Rejected err \<Rightarrow>
             if Suc attempts \<ge> maxAttempts then ([Send prompt], Some err)
             else (case attempt_loop send delay prompt (Suc attempts) of
                     (es, thrown) \<Rightarrow>
                       (Send prompt # Backoff (delay * Suc attempts) # es, thrown)))
      else ([], None))"
  by pat_completeness auto
termination
  by (relation "measure (\<lambda>(send, delay, prompt, attempts). maxAttempts - attempts)") auto

text \<open>The outer \<open>try\<close>, \<open>catch\<close> and \<open>finally\<close> around the loop.\<close>

definition process_item :: "(nat \<Rightarrow> api_response) \<Rightarrow> nat \<Rightarrow> string \<Rightarrow> effect list" where
  "process_item send delay prompt =
     (case attempt_loop send delay prompt 0 of
        (es, thrown) \<Rightarrow>
          es @ (case thrown of None \<Rightarrow> [] | Some err \<Rightarrow> [Reject err])
             @ [ClearFlag, SetTimeout delay])"

subsection \<open>The queue as a state machine\<close>

text \<open>
  A call of \<open>processQueue\<close> that has passed its guard is a task: it waits for the
  response of the API or for the end of a backoff sleep (with the time at which the
  sleep is over). The submitter's \<open>resolve\<close> and \<open>reject\<close> are identified by the
  ticket the item got when it was submitted.
\<close>

datatype wait = InCall | InSleep nat

record task =
  ticket :: nat
  prompt :: string
  attempts :: nat
  waiting :: wait

text \<open>What the queue does, logged with the time at which it happens.\<close>

datatype action =
    Dispatched nat
  | Called nat
  | Sleeping nat nat
  | Resolved nat string
  | RejectedWith nat string
  | Finished nat

record ai =
  requestQueue :: "(nat \<times> string) list"
  processingQueue :: bool
  aiRateLimitDelay :: nat
  tasks :: "task list"
  timers :: "nat list"
  clock :: nat
  next_ticket :: nat
  history :: "(nat \<times> action) list"

text \<open>The constructor.\<close>

definition new_ai :: ai where
  "new_ai =
     \<lparr> requestQueue = [], processingQueue = False, aiRateLimitDelay = 1000,
       tasks = [], timers = [], clock = 0, next_ticket = 0, history = [] \<rparr>"

definition record_action :: "action \<Rightarrow> ai \<Rightarrow> ai" where
  "record_action a s = s \<lparr> history := history s @ [(clock s, a)] \<rparr>"

text \<open>
  \<open>processQueue\<close> up to its first \<open>await\<close>: the guard, the flag, the item taken
  from the front of the queue and the first request.
\<close>

definition processQueue :: "ai \<Rightarrow> ai" where
  "processQueue s =
     (if processingQueue s \<or> length (requestQueue s) = 0 then s
      else (case requestQueue s of
              [] \<Rightarrow> s
            | (t, p) # rest \<Rightarrow>
                record_action (Called t)
                  (record_action (Dispatched t)
                     (s \<lparr> processingQueue := True,
                          requestQueue := rest,
                          tasks := tasks s @ [\<lparr> ticket = t, prompt = p, attempts = 0, waiting = InCall \<rparr>] \<rparr>))))"

text \<open>\<open>queueAIRequest\<close>: the item is appended and \<open>processQueue\<close> is called.\<close>

definition queueAIRequest :: "string \<Rightarrow> ai \<Rightarrow> ai" where
  "queueAIRequest p s =
     processQueue (s \<lparr> requestQueue := requestQueue s @ [(next_ticket s, p)],
                       next_ticket := Suc (next_ticket s) \<rparr>)"

text \<open>The \<open>finally\<close> block of task \<open>k\<close>, which ends the task.\<close>

definition finish_task :: "nat \<Rightarrow> ai \<Rightarrow> ai" where
  "finish_task k s =
     record_action (Finished (ticket (tasks s ! k)))
       (s \<lparr> processingQueue := False,
            timers := timers s @ [clock s + aiRateLimitDelay s],
            tasks := take k (tasks s) @ drop (Suc k) (tasks s) \<rparr>)"

text \<open>The request of task \<open>k\<close> settles with outcome \<open>r\<close>.\<close>

definition on_response :: "nat \<Rightarrow> api_response \<Rightarrow> ai \<Rightarrow> ai" where
  "on_response k r s =
     (let tk = tasks s ! k
      in case sendToGemini r of
           Fulfilled response \<Rightarrow> finish_task k (record_action (Resolved (ticket tk) response) s)
         | Rejected err \<Rightarrow>
             if Suc (attempts tk) \<ge> maxAttempts
             then finish_task k (record_action (RejectedWith (ticket tk) err) s)
             else record_action (Sleeping (ticket tk) (aiRateLimitDelay s * Suc (attempts tk)))
                    (s \<lparr> tasks := (tasks s)[k := tk \<lparr> attempts := Suc (attempts tk),
                            waiting := InSleep (clock s + aiRateLimitDelay s * Suc (attempts tk)) \<rparr>] \<rparr>))"

text \<open>The backoff sleep of task \<open>k\<close> is over: the loop makes the next request.\<close>

definition on_wake :: "nat \<Rightarrow> ai \<Rightarrow> ai" where
  "on_wake k s =
     record_action (Called (ticket (tasks s ! k)))
       (s \<lparr> tasks := (tasks s)[k := (tasks s ! k) \<lparr> waiting := InCall \<rparr>] \<rparr>)"

text \<open>
  What can happen to the processor: an item is submitted, the request of a task
  settles, a backoff sleep ends, a timer set by a \<open>finally\<close> block fires, time passes.
  A sleep or a timer never ends before its time; \<open>step\<close> is \<open>None\<close> for an event
  that cannot happen in the state.
\<close>

datatype ai_event =
    Submit string
  | Respond nat api_response
  | Wake nat
  | Timer nat
  | Elapse nat

definition step :: "ai_event \<Rightarrow> ai \<Rightarrow> ai option" where
  "step ev s =
     (case ev of
        Submit p \<Rightarrow> Some (queueAIRequest p s)
      | Respond k r \<Rightarrow>
          if k < length (tasks s) \<and> waiting (tasks s ! k) = InCall
          then Some (on_response k r s) else None
      | Wake k \<Rightarrow>
          if k < length (tasks s)
          then (case waiting (tasks s ! k) of
                  InCall \<Rightarrow> None
                | InSleep due \<Rightarrow> if due \<le> clock s then Some (on_wake k s) else None)
          else None
      | Timer j \<Rightarrow>
          if j < length (timers s) \<and> timers s ! j \<le> clock s
          then Some (processQueue (s \<lparr> timers := take j (timers s) @ drop (Suc j) (timers s) \<rparr>))
          else None
      | Elapse d \<Rightarrow> Some (s \<lparr> clock := clock s + d \<rparr>))"

fun run :: "ai_event list \<Rightarrow> ai \<Rightarrow> ai option" where
  "run [] s = Some s"
| "run (ev # evs) s = (case step ev s of None \<Rightarrow> None | Some s1 \<Rightarrow> run evs s1)"

text \<open>The requests to the API that are in flight.\<close>

definition in_flight :: "ai \<Rightarrow> task list" where
  "in_flight s = filter (\<lambda>tk. waiting tk = InCall) (tasks s)"

text \<open>
  The times between the end of one dispatch and the start of the next, read from the
  history: for each \<open>Finished\<close> entry directly followed by a \<open>Dispatched\<close> entry,
  the difference of their times.
\<close>

fun dispatch_gaps :: "(nat \<times> action) list \<Rightarrow> nat list" where
  "dispatch_gaps ((t1, Finished a) # (t2, Dispatched b) # rest) =
     (t2 - t1) # dispatch_gaps ((t2, Dispatched b) # rest)"
| "dispatch_gaps (e # rest) = dispatch_gaps rest"
| "dispatch_gaps [] = []"

declare attempt_loop.simps [simp del]

text \<open>The requests and the settlements among the effects of an item.\<close>

fun is_send :: "effect \<Rightarrow> bool" where
  "is_send (Send p) = True"
| "is_send e = False"

fun is_settle :: "effect \<Rightarrow> bool" where
  "is_settle (Resolve x) = True"
| "is_settle (Reject x) = True"
| "is_settle e = False"

text \<open>
  The invariant of the queue: while the flag is set exactly one call of
  \<open>processQueue\<close> is under way, and none while it is clear.
\<close>

definition idle_or_single :: "ai \<Rightarrow> bool" where
  "idle_or_single s = (if processingQueue s then length (tasks s) = 1 else tasks s = [])"

text \<open>
  The response \<open>r\<close> ends the handling of the task: the request succeeded, or it
  failed on the last attempt.
\<close>

definition ends_task :: "api_response \<Rightarrow> task \<Rightarrow> bool" where
  "ends_task r tk =
     (case sendToGemini r of
        Fulfilled response \<Rightarrow> True
      | Rejected err \<Rightarrow> Suc (attempts tk) \<ge> maxAttempts)"

section \<open>Schedules of the profile scrapes\<close>

fun is_get :: "event \<Rightarrow> bool" where
  "is_get (Get u) = True"
| "is_get e = False"

fun is_hit :: "event \<Rightarrow> bool" where
  "is_hit (CacheHit k) = True"
| "is_hit e = False"

fun is_sleep :: "event \<Rightarrow> bool" where
  "is_sleep (Sleep d) = True"
| "is_sleep e = False"

text \<open>
  The schedule the specification asks for: the events of the batches one after the
  other, with a pause between two consecutive batches, none inside a batch and none
  after the last one.
\<close>

fun pauses_between :: "nat \<Rightarrow> event list list \<Rightarrow> event list" where
  "pauses_between d [] = []"
| "pauses_between d [g] = g"
| "pauses_between d (g # g' # gs) = g @ Sleep d # pauses_between d (g' # gs)"

text \<open>
  One batch done as specified: one result and one event for each candidate, in order.
  The candidate at position \<open>i + k\<close> is either fetched, and its result is the record
  made from its response, or found in the cache, which is possible only for a username
  of \<open>seen\<close>.
\<close>

definition batch_ok ::
  "world \<Rightarrow> string set \<Rightarrow> nat \<Rightarrow> user list \<Rightarrow> user list \<Rightarrow> event list \<Rightarrow> bool" where
  "batch_ok w seen i batch out evs =
     (length out = length batch \<and> length evs = length batch
      \<and> (\<forall>k < length batch.
            (evs ! k = Get (ProfileUrl (profile_url (batch ! k)))
               \<and> out ! k = profile_result w (get_profile w (i + k)) (batch ! k))
            \<or> (evs ! k = CacheHit (ProfileKey (username (batch ! k)))
               \<and> username (batch ! k) \<in> seen)))"

text \<open>
  A whole run done as specified: the candidates are taken in batches of \<open>B\<close>, one
  group of events for each batch; the usernames of a batch may be in the cache from
  the next batch on.
\<close>

fun run_ok ::
  "world \<Rightarrow> nat \<Rightarrow> string set \<Rightarrow> nat \<Rightarrow> user list \<Rightarrow> user list \<Rightarrow> event list list \<Rightarrow> bool" where
  "run_ok w B seen i us out [] = (us = [] \<and> out = [])"
| "run_ok w B seen i us out (g # gs) =
     (us \<noteq> [] \<and> batch_ok w seen i (take B us) (take B out) g
      \<and> run_ok w B (seen \<union> username ` set (take B us)) (i + B) (drop B us) (drop B out) gs)"

text \<open>What page \<open>p\<close> of a query contributes: its cached list, or the list made from its response.\<close>

definition page_users :: "world \<Rightarrow> scraper \<Rightarrow> string \<Rightarrow> nat \<Rightarrow> user list" where
  "page_users w s query p =
     (case pageCache s (query, p) of
        Some cached \<Rightarrow> cached
      | None \<Rightarrow> fst (scrapeUsersPage_end w (get_page w p) query p s))"

text \<open>The event of the scrape of one candidate: a request of its profile, or a cache hit.\<close>

definition scrape_event :: "user \<Rightarrow> event \<Rightarrow> bool" where
  "scrape_event u e =
     (e = Get (ProfileUrl (profile_url u)) \<or> e = CacheHit (ProfileKey (username u)))"

section \<open>The first number of a text\<close>

text \<open>
  The texts the pattern \<open>\d+(?:,\d+)*\<close> describes: runs of digits separated by
  single commas.
\<close>

fun comma_number :: "string \<Rightarrow> bool" where
  "comma_number [] = False"
| "comma_number [c] = is_digit c"
| "comma_number (c # d # r) =
     (is_digit c \<and> (if d = CHR '','' then comma_number r else comma_number (d # r)))"

text \<open>
  A match cannot be made longer when the text after it does not go on with a digit, nor
  with a comma directly followed by a digit.
\<close>

fun stops_match :: "string \<Rightarrow> bool" where
  "stops_match [] = True"
| "stops_match [c] = (\<not> is_digit c)"
| "stops_match (c # d # r) = (\<not> is_digit c \<and> \<not> (c = CHR '','' \<and> is_digit d))"

text \<open>
  \<open>m\<close> is the first number of \<open>t\<close>: no digit comes before it, it has the shape of the
  pattern, and it cannot be made longer.
\<close>

definition first_number :: "string \<Rightarrow> string \<Rightarrow> bool" where
  "first_number t m =
     (\<exists>pre post. t = pre @ m @ post \<and> strip_non_digits pre = []
        \<and> comma_number m \<and> stops_match post)"

section \<open>The schedule with the cache\<close>

text \<open>
  The candidate at position \<open>m\<close> is in the cache when its batch starts: its username
  was cached before the call, or a candidate of an earlier batch with the same username
  got a response that was scraped and stored.
\<close>

definition hit_at :: "world \<Rightarrow> scraper \<Rightarrow> user list \<Rightarrow> nat \<Rightarrow> bool" where
  "hit_at w s users m =
     (profileCache s (username (users ! m)) \<noteq> None
      \<or> list_ex (\<lambda>k. username (users ! k) = username (users ! m)
                       \<and> profile_cached w (get_profile w k))
           [0..<(m div batchSize s) * batchSize s])"

text \<open>A candidate in the cache issues no request; any other candidate issues one.\<close>

definition scrape_event_at :: "world \<Rightarrow> scraper \<Rightarrow> user list \<Rightarrow> nat \<Rightarrow> event" where
  "scrape_event_at w s users m =
     (if hit_at w s users m then CacheHit (ProfileKey (username (users ! m)))
      else Get (ProfileUrl (profile_url (users ! m))))"

text \<open>
  The events of the batches: batch \<open>j\<close> holds the candidates from position \<open>j * B\<close>
  up to \<open>j * B + B\<close> or the end of the list, and there are \<open>ceil(M/B)\<close> batches.
\<close>

definition scheduled_groups :: "world \<Rightarrow> scraper \<Rightarrow> user list \<Rightarrow> event list list" where
  "scheduled_groups w s users =
     map (\<lambda>j. map (scrape_event_at w s users)
                 [j * batchSize s..<min (j * batchSize s + batchSize s) (length users)])
       [0..<(length users + batchSize s - 1) div batchSize s]"

section \<open>Sample inputs\<close>

text \<open>A search candidate as \<open>scrapeUsersPage\<close> builds it, and a profile document.\<close>

definition sample_user :: "string \<Rightarrow> user" where
  "sample_user name =
     \<lparr> username = name, display_name = None, profile_url = ''https://github.com/'' @ name,
       bio = None, raw_data = RawEmpty, contribution_count = None,
       pinned_repositories = None \<rparr>"

definition sample_profile :: "string \<Rightarrow> string \<Rightarrow> string \<Rightarrow> profile_dom" where
  "sample_profile contrib followersText followingText =
     \<lparr> h2_contributions = contrib, yearly_contributions = None,
       pinned_by_selector = [[], [], []],
       followers_link = followersText, following_link = followingText,
       organization_elems = [],
       js_user_profile_bio = [], user_profile_bio = [], itemprop_description = [] \<rparr>"

text \<open>
  A world in which search page 1 and the profile request at position 1 time out and
  everything else answers.
\<close>

definition sample_world :: world where
  "sample_world =
     \<lparr> get_home = Body ''<html>'',
       get_page = (\<lambda>p. if p = 1 then Throws ''timeout'' else Body ''<html>''),
       get_profile = (\<lambda>i. if i = 1 then Throws ''timeout'' else Body ''<html>''),
       load_users = (\<lambda>d. Inr [sample_user ''ada'', sample_user ''bob'', sample_user ''cy'']),
       load_profile = (\<lambda>d. Inr (sample_profile ''12 contributions'' ''3'' ''4'')) \<rparr>"

definition sample_users :: "user list" where
  "sample_users = [sample_user ''ada'', sample_user ''bob'', sample_user ''cy'', sample_user ''dan'']"

text \<open>
  A world whose search pages hold no candidate; the record made of the sample profile;
  the scraper after it has scraped that profile once.
\<close>

definition quiet_world :: world where
  "quiet_world = sample_world \<lparr> get_page := (\<lambda>p. Body ''<html>''), load_users := (\<lambda>d. Inr []) \<rparr>"

definition ada_profile :: user where
  "ada_profile = extract_profile (sample_user ''ada'') (sample_profile ''12 contributions'' ''3'' ''4'')"

definition warm_scraper :: scraper where
  "warm_scraper =
     new_scraper \<lparr> profileCache := (profileCache new_scraper)(''ada'' := Some ada_profile),
                   trace := [Get (ProfileUrl ''https://github.com/ada'')] \<rparr>"

section \<open>Count extraction\<close>

lemma match_number_None: "match_number s = None \<longleftrightarrow> strip_non_digits s = []"
proof -
  have "match_number s = None \<longleftrightarrow> dropWhile (\<lambda>c. \<not> is_digit c) s = []"
    by (simp add: match_number_def del: dropWhile_eq_Nil_conv split: list.splits)
  also have "\<dots> \<longleftrightarrow> (\<forall>c\<in>set s. \<not> is_digit c)"
    by (simp add: dropWhile_eq_Nil_conv)
  also have "\<dots> \<longleftrightarrow> strip_non_digits s = []"
    by (simp add: strip_non_digits_def filter_empty_conv)
  finally show ?thesis .
qed

text \<open>The match of the source is the first number of the text, and the only one.\<close>

lemma comma_not_digit: "\<not> is_digit (CHR '','')"
  by (simp add: is_digit_def)

lemma digit_groups_number: "is_digit d \<Longrightarrow> comma_number (d # digit_groups r)"
  by (induction r arbitrary: d rule: digit_groups.induct) (auto simp: comma_not_digit)

lemma digit_groups_stops: "\<exists>post. r = digit_groups r @ post \<and> stops_match post"
  by (induction r rule: digit_groups.induct) auto

lemma comma_number_Cons: "comma_number m \<Longrightarrow> \<exists>d g. m = d # g \<and> is_digit d"
  by (induction m rule: comma_number.induct) auto

lemma digit_groups_unique:
  "is_digit d \<Longrightarrow> r = g @ post \<Longrightarrow> comma_number (d # g) \<Longrightarrow> stops_match post \<Longrightarrow>
   digit_groups r = g"
proof (induction r arbitrary: d g post rule: digit_groups.induct)
  case 1
  then show ?case by simp
next
  case (2 c)
  then show ?case
    by (cases g) (auto simp: comma_not_digit split: if_splits)
next
  case (3 c e r)
  show ?case
  proof (cases g)
    case Nil
    then show ?thesis using "3.prems" by auto
  next
    case (Cons c' g')
    then have c': "c' = c" and rest: "e # r = g' @ post" using "3.prems"(2) by simp_all
    show ?thesis
    proof (cases "is_digit c")
      case True
      then have "c \<noteq> CHR '',''" using comma_not_digit by auto
      then have "comma_number (c # g')" using "3.prems"(3) Cons c' by simp
      from "3.IH"(1)[OF True True rest this "3.prems"(4)] show ?thesis
        using True Cons c' by simp
    next
      case False
      then have comma: "c = CHR '',''" and cn: "comma_number g'"
        using "3.prems"(3) Cons c'
        by (cases g'; auto split: if_splits)+
      from comma_number_Cons[OF cn] obtain d' g'' where g': "g' = d' # g''" and d': "is_digit d'"
        by blast
      then have e: "e = d'" and r: "r = g'' @ post" using rest by simp_all
      have "comma_number (e # g'')" using cn g' e by simp
      from "3.IH"(2)[OF False _ _ r this "3.prems"(4)] comma d' e
      have "digit_groups r = g''" by simp
      then show ?thesis using False comma d' e Cons c' g' by simp
    qed
  qed
qed

lemma match_number_iff: "match_number t = Some m \<longleftrightarrow> first_number t m"
proof
  assume a: "match_number t = Some m"
  let ?P = "\<lambda>c. \<not> is_digit c"
  from a obtain d r where dr: "dropWhile ?P t = d # r" and m: "m = d # digit_groups r"
    by (auto simp: match_number_def split: list.splits)
  have d: "is_digit d" using dr hd_dropWhile[of ?P t] by auto
  obtain post where post: "r = digit_groups r @ post" "stops_match post"
    using digit_groups_stops by blast
  have "t = takeWhile ?P t @ d # r" using dr takeWhile_dropWhile_id[of ?P t] by simp
  then have "t = takeWhile ?P t @ m @ post" using post(1) m by (metis append_Cons)
  moreover have "strip_non_digits (takeWhile ?P t) = []"
    by (auto simp: strip_non_digits_def filter_empty_conv dest: set_takeWhileD)
  moreover have "comma_number m" using m d digit_groups_number by simp
  ultimately show "first_number t m" using post(2) unfolding first_number_def by blast
next
  assume "first_number t m"
  then obtain pre post where t: "t = pre @ m @ post" and pre: "strip_non_digits pre = []"
    and cn: "comma_number m" and st: "stops_match post"
    unfolding first_number_def by blast
  from comma_number_Cons[OF cn] obtain d g where m: "m = d # g" and d: "is_digit d" by blast
  have "\<forall>c \<in> set pre. \<not> is_digit c" using pre by (simp add: strip_non_digits_def filter_empty_conv)
  then have "dropWhile (\<lambda>c. \<not> is_digit c) t = d # g @ post"
    using t m d by (simp add: dropWhile_append)
  moreover have "digit_groups (g @ post) = g"
    using digit_groups_unique[OF d refl _ st] cn m by simp
  ultimately show "match_number t = Some m" using m by (simp add: match_number_def)
qed

text \<open>
  C8, amended. The followers and following counts are the text of the matched link with
  every non-digit character removed, and \<open>'0'\<close> when that text has no digit. The
  contribution count is not stripped. When the heading text has a digit it is the first
  number of the heading: it starts at the first digit and runs over the digits and over
  every comma that is directly followed by a digit, commas kept, as far as that goes.
  When the heading has no digit and the yearly-contributions text has one, it is the
  first number of that text. It is \<open>'0'\<close> when neither text has a digit. In each case
  the value is the only one that fits. The extraction is a total function: no input
  makes it fail.
\<close>

theorem count_extraction:
  "followers (raw_data (extract_profile u doc)) =
     (if strip_non_digits (followers_link doc) = [] then ''0''
      else strip_non_digits (followers_link doc))
   \<and> following (raw_data (extract_profile u doc)) =
     (if strip_non_digits (following_link doc) = [] then ''0''
      else strip_non_digits (following_link doc))
   \<and> (\<exists>cc. contribution_count (extract_profile u doc) = Some cc
         \<and> (strip_non_digits (h2_contributions doc) \<noteq> [] \<longrightarrow>
              (\<forall>m. first_number (h2_contributions doc) m \<longleftrightarrow> m = cc))
         \<and> (strip_non_digits (h2_contributions doc) = [] \<longrightarrow>
              (\<forall>t. yearly_contributions doc = Some t \<and> strip_non_digits t \<noteq> [] \<longrightarrow>
                 (\<forall>m. first_number t m \<longleftrightarrow> m = cc)))
         \<and> (strip_non_digits (h2_contributions doc) = []
              \<and> (yearly_contributions doc = None
                  \<or> (\<exists>t. yearly_contributions doc = Some t \<and> strip_non_digits t = []))
              \<longrightarrow> cc = ''0''))"
proof -
  let ?h = "h2_contributions doc" and ?y = "yearly_contributions doc"
  let ?cc = "extract_contribution_count ?h ?y"
  have cc: "contribution_count (extract_profile u doc) = Some ?cc"
    by (simp add: extract_profile_def)
  have uniq: "\<forall>m. first_number t m \<longleftrightarrow> m = x" if "match_number t = Some x" for t x
    unfolding match_number_iff [symmetric] that by auto
  have a: "strip_non_digits ?h \<noteq> [] \<longrightarrow> (\<forall>m. first_number ?h m \<longleftrightarrow> m = ?cc)"
  proof
    assume "strip_non_digits ?h \<noteq> []"
    then obtain x where x: "match_number ?h = Some x"
      using match_number_None[of ?h] by (cases "match_number ?h") auto
    then have "?cc = x" by (simp add: extract_contribution_count_def)
    with uniq[OF x] show "\<forall>m. first_number ?h m \<longleftrightarrow> m = ?cc" by simp
  qed
  have b: "strip_non_digits ?h = [] \<longrightarrow>
      (\<forall>t. ?y = Some t \<and> strip_non_digits t \<noteq> [] \<longrightarrow> (\<forall>m. first_number t m \<longleftrightarrow> m = ?cc))"
  proof (rule impI, rule allI, rule impI)
    fix t
    assume h: "strip_non_digits ?h = []" and t: "?y = Some t \<and> strip_non_digits t \<noteq> []"
    from h have n: "match_number ?h = None" using match_number_None[of ?h] by simp
    from t obtain x where x: "match_number t = Some x"
      using match_number_None[of t] by (cases "match_number t") auto
    then have "?cc = x" using n t by (simp add: extract_contribution_count_def)
    with uniq[OF x] show "\<forall>m. first_number t m \<longleftrightarrow> m = ?cc" by simp
  qed
  have c: "strip_non_digits ?h = []
      \<and> (?y = None \<or> (\<exists>t. ?y = Some t \<and> strip_non_digits t = [])) \<longrightarrow> ?cc = ''0''"
  proof
    assume h: "strip_non_digits ?h = []
      \<and> (?y = None \<or> (\<exists>t. ?y = Some t \<and> strip_non_digits t = []))"
    then have n: "match_number ?h = None" using match_number_None[of ?h] by simp
    from h show "?cc = ''0''"
    proof (cases ?y)
      case None
      then show ?thesis using n by (simp add: extract_contribution_count_def)
    next
      case (Some t)
      then have "match_number t = None" using h match_number_None[of t] by auto
      then show ?thesis using n Some by (simp add: extract_contribution_count_def)
    qed
  qed
  have f: "followers (raw_data (extract_profile u doc)) =
     (if strip_non_digits (followers_link doc) = [] then ''0''
      else strip_non_digits (followers_link doc))"
    by (simp add: extract_profile_def extract_count_def or_else_def)
  have g: "following (raw_data (extract_profile u doc)) =
     (if strip_non_digits (following_link doc) = [] then ''0''
      else strip_non_digits (following_link doc))"
    by (simp add: extract_profile_def extract_count_def or_else_def)
  from cc a b c f g show ?thesis by blast
qed

lemmas count_eval =
  sample_profile_def sample_user_def extract_profile_def extract_contribution_count_def
  match_number_def extract_count_def or_else_def strip_non_digits_def is_digit_def

theorem count_extraction_witness:
  "strip_non_digits (h2_contributions (sample_profile ''1,234 contributions'' ''1.2k followers'' ''x'')) \<noteq> []
   \<and> first_number ''1,234 contributions'' ''1,234''
   \<and> contribution_count (extract_profile (sample_user ''ada'')
        (sample_profile ''1,234 contributions'' ''1.2k followers'' ''x'')) = Some ''1,234''
   \<and> followers (raw_data (extract_profile (sample_user ''ada'')
        (sample_profile ''1,234 contributions'' ''1.2k followers'' ''x''))) = ''12''
   \<and> following (raw_data (extract_profile (sample_user ''ada'')
        (sample_profile ''1,234 contributions'' ''1.2k followers'' ''x''))) = ''0''
   \<and> strip_non_digits (h2_contributions (sample_profile ''none yet'' [] [])) = []
   \<and> yearly_contributions (sample_profile ''none yet'' [] []) = None
   \<and> contribution_count (extract_profile (sample_user ''ada'')
        (sample_profile ''none yet'' [] [])) = Some ''0''
   \<and> yearly_contributions ((sample_profile ''none yet'' [] [])
        \<lparr> yearly_contributions := Some ''2,500 in the last year'' \<rparr>) = Some ''2,500 in the last year''
   \<and> first_number ''2,500 in the last year'' ''2,500''
   \<and> contribution_count (extract_profile (sample_user ''ada'')
        ((sample_profile ''none yet'' [] [])
           \<lparr> yearly_contributions := Some ''2,500 in the last year'' \<rparr>)) = Some ''2,500''"
proof -
  let ?u = "sample_user ''ada''"
  let ?a = "sample_profile ''1,234 contributions'' ''1.2k followers'' ''x''"
  let ?b = "sample_profile ''none yet'' [] []"
  let ?c = "?b \<lparr> yearly_contributions := Some ''2,500 in the last year'' \<rparr>"
  have a: "contribution_count (extract_profile ?u ?a) = Some ''1,234''"
    "strip_non_digits (h2_contributions ?a) \<noteq> []" "h2_contributions ?a = ''1,234 contributions''"
    "followers (raw_data (extract_profile ?u ?a)) = ''12''"
    "following (raw_data (extract_profile ?u ?a)) = ''0''"
    by (simp_all add: count_eval)
  have b: "contribution_count (extract_profile ?u ?b) = Some ''0''"
    "strip_non_digits (h2_contributions ?b) = []" "yearly_contributions ?b = None"
    by (simp_all add: count_eval)
  have c: "contribution_count (extract_profile ?u ?c) = Some ''2,500''"
    "strip_non_digits (h2_contributions ?c) = []"
    "yearly_contributions ?c = Some ''2,500 in the last year''"
    "strip_non_digits ''2,500 in the last year'' \<noteq> []"
    by (simp_all add: count_eval)
  from count_extraction [of ?u ?a] a(1,2,3)
  have fa: "first_number ''1,234 contributions'' ''1,234''" by auto
  from count_extraction [of ?u ?c] c
  have fc: "first_number ''2,500 in the last year'' ''2,500''" by auto
  from a b c fa fc show ?thesis by simp
qed

text \<open>
  C8 as stated fails for the contribution count: the comma of \<open>1,234\<close> is kept, while
  stripping the non-digit characters of the matched text gives \<open>1234\<close>.
\<close>

theorem count_extraction_counterexample:
  "extract_contribution_count ''1,234 contributions in the last year'' None = ''1,234''
   \<and> strip_non_digits ''1,234 contributions in the last year'' = ''1234''"
  by (simp add: extract_contribution_count_def match_number_def strip_non_digits_def is_digit_def)

section \<open>The response parser: when the line scan is used\<close>

text \<open>The regular expression finds no block exactly when no opening brace is followed by a closing one.\<close>

lemma dropWhile_brace:
  "CHR ''}'' \<in> set rest \<Longrightarrow>
   \<exists>x r. dropWhile (\<lambda>c. c \<noteq> CHR ''{'') (a @ CHR ''{'' # rest) = x # r \<and> CHR ''}'' \<in> set r"
  by (induction a) auto

lemma json_match_None_iff:
  "json_match s = None \<longleftrightarrow> (\<forall>a b c. s \<noteq> a @ CHR ''{'' # b @ CHR ''}'' # c)"
proof
  assume n: "json_match s = None"
  show "\<forall>a b c. s \<noteq> a @ CHR ''{'' # b @ CHR ''}'' # c"
  proof (intro allI notI)
    fix a b c assume s: "s = a @ CHR ''{'' # b @ CHR ''}'' # c"
    have "CHR ''}'' \<in> set (b @ CHR ''}'' # c)" by simp
    from dropWhile_brace[OF this, of a] s obtain x r where
      "dropWhile (\<lambda>c. c \<noteq> CHR ''{'') s = x # r" "CHR ''}'' \<in> set r" by auto
    with n show False by (simp add: json_match_def)
  qed
next
  assume a: "\<forall>a b c. s \<noteq> a @ CHR ''{'' # b @ CHR ''}'' # c"
  show "json_match s = None"
  proof (rule ccontr)
    assume "json_match s \<noteq> None"
    let ?P = "\<lambda>c. c \<noteq> CHR ''{''"
    from \<open>json_match s \<noteq> None\<close> obtain x r where xr: "dropWhile ?P s = x # r" and r: "CHR ''}'' \<in> set r"
      by (auto simp: json_match_def split: list.splits if_splits)
    have x: "x = CHR ''{''" using xr hd_dropWhile[of ?P s] by auto
    from r obtain b c where "r = b @ CHR ''}'' # c" by (auto simp: in_set_conv_decomp)
    then have "s = takeWhile ?P s @ CHR ''{'' # b @ CHR ''}'' # c"
      using xr x takeWhile_dropWhile_id[of ?P s] by simp
    with a show False by blast
  qed
qed

text \<open>
  C4, amended. For every response text without a brace-delimited block,
  \<open>parseAIResponse\<close> returns the five fields of the labelled-section line scan. For
  every text whose block is present but rejected by \<open>JSON.parse\<close>, it returns the
  error object \<open>Failed to parse AI response\<close>: the line scan is not tried.
\<close>

theorem parse_fallback:
  "((\<forall>a b c. s \<noteq> a @ CHR ''{'' # b @ CHR ''}'' # c) \<longrightarrow>
      parseAIResponse now s =
        Sections (extractSection (split_on (CHR 0x0A) s) ''Primary skills'')
          (extractSection (split_on (CHR 0x0A) s) ''Tech stack'')
          (extractSection (split_on (CHR 0x0A) s) ''Experience level'')
          (extractSection (split_on (CHR 0x0A) s) ''Notable contributions'')
          (extractSection (split_on (CHR 0x0A) s) ''Brief professional summary'')
          s now)
   \<and> (\<forall>block. json_match s = Some block \<and> JSON_parse block = None \<longrightarrow>
         parseAIResponse now s = Failed ''Failed to parse AI response'' s now)"
proof (intro conjI impI allI)
  assume "\<forall>a b c. s \<noteq> a @ CHR ''{'' # b @ CHR ''}'' # c"
  then have "json_match s = None" by (simp add: json_match_None_iff)
  then show "parseAIResponse now s =
        Sections (extractSection (split_on (CHR 0x0A) s) ''Primary skills'')
          (extractSection (split_on (CHR 0x0A) s) ''Tech stack'')
          (extractSection (split_on (CHR 0x0A) s) ''Experience level'')
          (extractSection (split_on (CHR 0x0A) s) ''Notable contributions'')
          (extractSection (split_on (CHR 0x0A) s) ''Brief professional summary'')
          s now"
    by (simp add: parseAIResponse_def line_scan_def Let_def)
next
  fix block assume "json_match s = Some block \<and> JSON_parse block = None"
  then show "parseAIResponse now s = Failed ''Failed to parse AI response'' s now"
    by (simp add: parseAIResponse_def)
qed

theorem parse_fallback_witness:
  "json_match ''Primary skills: Go'' = None
   \<and> parseAIResponse ''t'' ''Primary skills: Go''
       = Sections ''Go'' [] [] [] [] ''Primary skills: Go'' ''t''
   \<and> json_match ''{oops}'' = Some ''{oops}'' \<and> JSON_parse ''{oops}'' = None
   \<and> parseAIResponse ''t'' ''{oops}'' = Failed ''Failed to parse AI response'' ''{oops}'' ''t''"
proof -
  have m1: "json_match ''Primary skills: Go'' = None"
    by (simp add: json_match_def)
  have h1: "\<forall>a b c. ''Primary skills: Go'' \<noteq> a @ CHR ''{'' # b @ CHR ''}'' # c"
    by (rule iffD1 [OF json_match_None_iff m1])
  have m2: "json_match ''{oops}'' = Some ''{oops}''"
    by (simp add: json_match_def)
  have p2: "JSON_parse ''{oops}'' = None"
    by code_simp
  have e1: "extractSection (split_on (CHR 0x0A) ''Primary skills: Go'') ''Primary skills'' = ''Go''"
    by code_simp
  have e2: "extractSection (split_on (CHR 0x0A) ''Primary skills: Go'') ''Tech stack'' = []"
    by code_simp
  have e3: "extractSection (split_on (CHR 0x0A) ''Primary skills: Go'') ''Experience level'' = []"
    by code_simp
  have e4: "extractSection (split_on (CHR 0x0A) ''Primary skills: Go'') ''Notable contributions'' = []"
    by code_simp
  have e5: "extractSection (split_on (CHR 0x0A) ''Primary skills: Go'') ''Brief professional summary'' = []"
    by code_simp
  have a: "parseAIResponse ''t'' ''Primary skills: Go''
       = Sections ''Go'' [] [] [] [] ''Primary skills: Go'' ''t''"
  proof -
    from parse_fallback [of "''Primary skills: Go''" "''t''"] h1
    have "parseAIResponse ''t'' ''Primary skills: Go'' =
        Sections (extractSection (split_on (CHR 0x0A) ''Primary skills: Go'') ''Primary skills'')
          (extractSection (split_on (CHR 0x0A) ''Primary skills: Go'') ''Tech stack'')
          (extractSection (split_on (CHR 0x0A) ''Primary skills: Go'') ''Experience level'')
          (extractSection (split_on (CHR 0x0A) ''Primary skills: Go'') ''Notable contributions'')
          (extractSection (split_on (CHR 0x0A) ''Primary skills: Go'') ''Brief professional summary'')
          ''Primary skills: Go'' ''t''"
      by blast
    then show ?thesis by (simp only: e1 e2 e3 e4 e5)
  qed
  have b: "parseAIResponse ''t'' ''{oops}'' = Failed ''Failed to parse AI response'' ''{oops}'' ''t''"
    using parse_fallback [of "''{oops}''" "''t''"] m2 p2 by blast
  from m1 a m2 p2 b show ?thesis by simp
qed

text \<open>
  C4 as stated fails where the block is present and does not parse: the response
  \<open>Primary skills: {Go}\<close> has the block \<open>{Go}\<close>, which \<open>JSON.parse\<close> rejects, and the
  result is the error object, although the line scan would have found the section.
\<close>

theorem parse_fallback_counterexample:
  "json_match ''Primary skills: {Go}'' = Some ''{Go}''
   \<and> JSON_parse ''{Go}'' = None
   \<and> parseAIResponse ''t'' ''Primary skills: {Go}''
       = Failed ''Failed to parse AI response'' ''Primary skills: {Go}'' ''t''
   \<and> line_scan ''t'' ''Primary skills: {Go}''
       = Sections ''{Go}'' [] [] [] [] ''Primary skills: {Go}'' ''t''"
proof -
  have "json_match ''Primary skills: {Go}'' = Some ''{Go}''"
    by (simp add: json_match_def)
  moreover have "JSON_parse ''{Go}'' = None"
    by code_simp
  moreover have "parseAIResponse ''t'' ''Primary skills: {Go}''
       = Failed ''Failed to parse AI response'' ''Primary skills: {Go}'' ''t''"
    by code_simp
  moreover have "line_scan ''t'' ''Primary skills: {Go}''
       = Sections ''{Go}'' [] [] [] [] ''Primary skills: {Go}'' ''t''"
    by code_simp
  ultimately show ?thesis by simp
qed

section \<open>Retries of one item\<close>

lemma loop2: "attempt_loop send d p 2 =
   (case sendToGemini (send 2) of Fulfilled x \<Rightarrow> ([Send p, Resolve x], None)
    | Rejected e \<Rightarrow> ([Send p], Some e))"
  by (simp add: attempt_loop.simps[of send d p 2] maxAttempts_def split: outcome.splits)

lemma loop1: "attempt_loop send d p (Suc 0) =
   (case sendToGemini (send 1) of Fulfilled x \<Rightarrow> ([Send p, Resolve x], None)
    | Rejected e \<Rightarrow> (case attempt_loop send d p 2 of (es, thrown) \<Rightarrow> (Send p # Backoff (d * 2) # es, thrown)))"
  by (simp add: attempt_loop.simps[of send d p "Suc 0"] maxAttempts_def numeral_2_eq_2 split: outcome.splits)

lemma loop0: "attempt_loop send d p 0 =
   (case sendToGemini (send 0) of Fulfilled x \<Rightarrow> ([Send p, Resolve x], None)
    | Rejected e \<Rightarrow> (case attempt_loop send d p (Suc 0) of (es, thrown) \<Rightarrow> (Send p # Backoff (d * 1) # es, thrown)))"
  by (simp add: attempt_loop.simps[of send d p 0] maxAttempts_def split: outcome.splits)

text \<open>
  C2. The request of an item is made at most three times. A failure of attempt 1 or 2
  is followed by a backoff sleep of the delay times the number of the attempt, a
  success resolves the submitter's promise with the response, a failure of the third
  attempt rejects it with the last error; in every case the promise is settled exactly
  once. With the delay of the constructor the second sleep is longer than the first.
  Submitting an item never fails.
\<close>

theorem retry_policy:
  "(\<forall>x. sendToGemini (send 0) = Fulfilled x \<longrightarrow>
      process_item send d p = [Send p, Resolve x, ClearFlag, SetTimeout d])
   \<and> (\<forall>e1 x. sendToGemini (send 0) = Rejected e1 \<and> sendToGemini (send 1) = Fulfilled x \<longrightarrow>
      process_item send d p =
        [Send p, Backoff (d * 1), Send p, Resolve x, ClearFlag, SetTimeout d])
   \<and> (\<forall>e1 e2 x. sendToGemini (send 0) = Rejected e1 \<and> sendToGemini (send 1) = Rejected e2
        \<and> sendToGemini (send 2) = Fulfilled x \<longrightarrow>
      process_item send d p =
        [Send p, Backoff (d * 1), Send p, Backoff (d * 2), Send p, Resolve x,
         ClearFlag, SetTimeout d])
   \<and> (\<forall>e1 e2 e3. sendToGemini (send 0) = Rejected e1 \<and> sendToGemini (send 1) = Rejected e2
        \<and> sendToGemini (send 2) = Rejected e3 \<longrightarrow>
      process_item send d p =
        [Send p, Backoff (d * 1), Send p, Backoff (d * 2), Send p, Reject e3,
         ClearFlag, SetTimeout d])
   \<and> length (filter is_send (process_item send d p)) \<le> 3
   \<and> length (filter is_settle (process_item send d p)) = 1
   \<and> aiRateLimitDelay new_ai * 1 < aiRateLimitDelay new_ai * 2
   \<and> (\<forall>s q. step (Submit q) s \<noteq> None)"
  by (cases "sendToGemini (send 0)"; cases "sendToGemini (send 1)"; cases "sendToGemini (send 2)")
     (simp_all add: process_item_def loop0 loop1 loop2 step_def new_ai_def)

theorem retry_policy_witness:
  "sendToGemini ((\<lambda>k::nat. if k < 2 then ApiError ''503'' else ApiContent ''ok'') 0) = Rejected ''503''
   \<and> sendToGemini ((\<lambda>k::nat. if k < 2 then ApiError ''503'' else ApiContent ''ok'') 1) = Rejected ''503''
   \<and> sendToGemini ((\<lambda>k::nat. if k < 2 then ApiError ''503'' else ApiContent ''ok'') 2) = Fulfilled ''ok''
   \<and> process_item (\<lambda>k::nat. if k < 2 then ApiError ''503'' else ApiContent ''ok'') 1000 ''hi'' =
        [Send ''hi'', Backoff 1000, Send ''hi'', Backoff 2000, Send ''hi'', Resolve ''ok'',
         ClearFlag, SetTimeout 1000]
   \<and> sendToGemini ((\<lambda>k::nat. ApiContent []) 2) = Rejected ''Empty response from Gemini''
   \<and> process_item (\<lambda>k::nat. ApiContent []) 1000 ''hi'' =
        [Send ''hi'', Backoff 1000, Send ''hi'', Backoff 2000, Send ''hi'',
         Reject ''Empty response from Gemini'', ClearFlag, SetTimeout 1000]"
  using retry_policy [of "\<lambda>k::nat. if k < 2 then ApiError ''503'' else ApiContent ''ok''" 1000 "''hi''"]
    retry_policy [of "\<lambda>k::nat. ApiContent []" 1000 "''hi''"]
  by (simp add: sendToGemini_def)

text \<open>
  The state machine of the queue makes the same steps for an item handled alone: two
  failures are followed by sleeps of 1000 and 2000, the third response settles the
  promise, and a sleep cannot end before its time.
\<close>

lemma machine_retries:
  assumes "sendToGemini r1 = Rejected e1" "sendToGemini r2 = Rejected e2"
  shows "\<exists>s. run [Submit p, Respond 0 r1, Elapse 1000, Wake 0, Respond 0 r2, Elapse 2000, Wake 0,
                  Respond 0 r3] new_ai = Some s
           \<and> map snd (history s) =
               [Dispatched 0, Called 0, Sleeping 0 1000, Called 0, Sleeping 0 2000, Called 0,
                (case sendToGemini r3 of
                   Fulfilled x \<Rightarrow> Resolved 0 x
                 | Rejected e3 \<Rightarrow> RejectedWith 0 e3),
                Finished 0]"
    and "run [Submit p, Respond 0 r1, Elapse 999, Wake 0] new_ai = None"
  using assms
  by (simp_all add: step_def queueAIRequest_def processQueue_def record_action_def new_ai_def
      on_response_def on_wake_def finish_task_def maxAttempts_def Let_def split: outcome.splits)

section \<open>One request in flight\<close>

lemma processQueue_busy: "processingQueue s \<Longrightarrow> processQueue s = s"
  by (simp add: processQueue_def)

lemma processQueue_inv: "idle_or_single s \<Longrightarrow> idle_or_single (processQueue s)"
  by (auto simp: processQueue_def idle_or_single_def record_action_def split: list.splits if_splits)

lemma step_inv: "idle_or_single s \<Longrightarrow> step ev s = Some s' \<Longrightarrow> idle_or_single s'"
proof (cases ev)
  case (Submit p)
  assume a: "idle_or_single s" "step ev s = Some s'"
  have "idle_or_single (s \<lparr> requestQueue := requestQueue s @ [(next_ticket s, p)],
                       next_ticket := Suc (next_ticket s) \<rparr>)"
    using a(1) by (simp add: idle_or_single_def)
  then show ?thesis using a(2) Submit processQueue_inv
    by (auto simp: step_def queueAIRequest_def)
next
  case (Respond k r)
  assume a: "idle_or_single s" "step ev s = Some s'"
  then show ?thesis using Respond
    by (auto simp: step_def on_response_def finish_task_def record_action_def idle_or_single_def Let_def
        split: if_splits outcome.splits)
next
  case (Wake k)
  assume a: "idle_or_single s" "step ev s = Some s'"
  then show ?thesis using Wake
    by (auto simp: step_def on_wake_def record_action_def idle_or_single_def
        split: if_splits wait.splits)
next
  case (Timer j)
  assume a: "idle_or_single s" "step ev s = Some s'"
  have "idle_or_single (s \<lparr> timers := take j (timers s) @ drop (Suc j) (timers s) \<rparr>)"
    using a(1) by (simp add: idle_or_single_def)
  then show ?thesis using a(2) Timer processQueue_inv
    by (auto simp: step_def split: if_splits)
next
  case (Elapse d)
  assume a: "idle_or_single s" "step ev s = Some s'"
  then show ?thesis using Elapse
    by (auto simp: step_def idle_or_single_def)
qed

lemma run_inv: "idle_or_single s \<Longrightarrow> run evs s = Some s' \<Longrightarrow> idle_or_single s'"
proof (induction evs arbitrary: s)
  case Nil
  then show ?case by simp
next
  case (Cons ev evs)
  then show ?case by (auto split: option.splits dest: step_inv)
qed

lemma new_ai_inv: "idle_or_single new_ai"
  by (simp add: idle_or_single_def new_ai_def)

lemma submits_busy:
  "processingQueue s \<Longrightarrow>
   \<exists>s'. run (map Submit ps) s = Some s' \<and> tasks s' = tasks s \<and> history s' = history s
        \<and> processingQueue s' \<and> map snd (requestQueue s') = map snd (requestQueue s) @ ps"
proof (induction ps arbitrary: s)
  case Nil
  then show ?case by simp
next
  case (Cons p ps)
  let ?s1 = "s \<lparr> requestQueue := requestQueue s @ [(next_ticket s, p)],
                       next_ticket := Suc (next_ticket s) \<rparr>"
  have s1: "step (Submit p) s = Some ?s1"
    using Cons.prems by (simp add: step_def queueAIRequest_def processQueue_busy)
  have "processingQueue ?s1" using Cons.prems by simp
  from Cons.IH[OF this] obtain s' where
    "run (map Submit ps) ?s1 = Some s'" "tasks s' = tasks ?s1" "history s' = history ?s1"
    "processingQueue s'" "map snd (requestQueue s') = map snd (requestQueue ?s1) @ ps"
    by blast
  then show ?case using s1 by simp
qed

text \<open>
  C1. In every state the processor can reach, at most one request to the generation API
  is in flight. While an item is being handled (the flag is set) \<open>processQueue\<close>
  returns at once, so any number of items submitted then are only appended to the
  queue: no request is made and the task under way is untouched.
\<close>

theorem single_flight:
  assumes "run evs new_ai = Some s"
  shows "length (in_flight s) \<le> 1
     \<and> (processingQueue s \<longrightarrow>
          processQueue s = s
          \<and> (\<forall>ps. \<exists>s'. run (map Submit ps) s = Some s' \<and> tasks s' = tasks s
                 \<and> history s' = history s
                 \<and> map snd (requestQueue s') = map snd (requestQueue s) @ ps
                 \<and> length (in_flight s') \<le> 1))"
proof -
  have inv: "idle_or_single s"
    using run_inv[OF new_ai_inv assms] .
  have le: "length (tasks s) \<le> 1"
    using inv by (simp add: idle_or_single_def split: if_splits)
  have fl: "length (in_flight s) \<le> 1"
    unfolding in_flight_def using le length_filter_le[of "\<lambda>tk. waiting tk = InCall" "tasks s"]
    by linarith
  show ?thesis
  proof (intro conjI impI allI)
    show "length (in_flight s) \<le> 1" by (rule fl)
  next
    assume "processingQueue s"
    then show "processQueue s = s" by (rule processQueue_busy)
  next
    fix ps assume "processingQueue s"
    from submits_busy[OF this, of ps] obtain s' where
      s': "run (map Submit ps) s = Some s'" "tasks s' = tasks s" "history s' = history s"
      "map snd (requestQueue s') = map snd (requestQueue s) @ ps" by blast
    have "length (in_flight s') \<le> 1" using fl s'(2) by (simp add: in_flight_def)
    with s' show "\<exists>s'. run (map Submit ps) s = Some s' \<and> tasks s' = tasks s
                 \<and> history s' = history s
                 \<and> map snd (requestQueue s') = map snd (requestQueue s) @ ps
                 \<and> length (in_flight s') \<le> 1" by blast
  qed
qed

theorem single_flight_witness:
  "\<exists>s. run [Submit ''a'', Submit ''b'', Submit ''c''] new_ai = Some s
       \<and> processingQueue s \<and> length (in_flight s) \<le> 1
       \<and> map prompt (in_flight s) = [''a'']
       \<and> map snd (requestQueue s) = [''b'', ''c'']"
proof -
  obtain s where s: "run [Submit ''a'', Submit ''b'', Submit ''c''] new_ai = Some s"
    "processingQueue s" "map prompt (in_flight s) = [''a'']"
    "map snd (requestQueue s) = [''b'', ''c'']"
    by (simp add: step_def queueAIRequest_def processQueue_def record_action_def new_ai_def
        in_flight_def)
  from single_flight [OF s(1)] have "length (in_flight s) \<le> 1" by blast
  with s show ?thesis by (intro exI [of _ s]) simp
qed

section \<open>The queue after an item has been handled\<close>

lemma exit_state:
  assumes "tasks s = [tk]" "waiting tk = InCall" "ends_task r tk"
  shows "\<exists>s'. step (Respond 0 r) s = Some s' \<and> processingQueue s' = False \<and> tasks s' = []
           \<and> timers s' = timers s @ [clock s + aiRateLimitDelay s]
           \<and> requestQueue s' = requestQueue s \<and> clock s' = clock s
           \<and> next_ticket s' = next_ticket s \<and> aiRateLimitDelay s' = aiRateLimitDelay s"
  using assms
  by (auto simp: step_def on_response_def finish_task_def record_action_def ends_task_def Let_def
      split: outcome.splits)

text \<open>
  C10. When the handling of an item ends, by a success or by the failure of the last
  attempt, the flag is cleared and a timer for a further \<open>processQueue\<close> is set. An
  item submitted afterwards to the empty queue is dispatched at once, and an item that
  was waiting in the queue is dispatched when that timer fires.
\<close>

theorem queue_never_stalls:
  assumes "tasks s = [tk]" "waiting tk = InCall" "ends_task r tk"
  shows "\<exists>s'. step (Respond 0 r) s = Some s' \<and> processingQueue s' = False \<and> tasks s' = []
           \<and> timers s' = timers s @ [clock s + aiRateLimitDelay s]
           \<and> (requestQueue s = [] \<longrightarrow>
                (\<forall>p. tasks (queueAIRequest p s') =
                      [\<lparr> ticket = next_ticket s, prompt = p, attempts = 0, waiting = InCall \<rparr>]))
           \<and> (\<forall>t p rest. requestQueue s = (t, p) # rest \<longrightarrow>
                (\<exists>s2. run [Elapse (aiRateLimitDelay s), Timer (length (timers s))] s' = Some s2
                   \<and> tasks s2 = [\<lparr> ticket = t, prompt = p, attempts = 0, waiting = InCall \<rparr>]
                   \<and> requestQueue s2 = rest \<and> processingQueue s2))"
proof -
  from exit_state[OF assms] obtain s' where s':
    "step (Respond 0 r) s = Some s'" "processingQueue s' = False" "tasks s' = []"
    "timers s' = timers s @ [clock s + aiRateLimitDelay s]"
    "requestQueue s' = requestQueue s" "clock s' = clock s"
    "next_ticket s' = next_ticket s" "aiRateLimitDelay s' = aiRateLimitDelay s"
    by blast
  have a: "requestQueue s = [] \<longrightarrow>
        (\<forall>p. tasks (queueAIRequest p s') =
              [\<lparr> ticket = next_ticket s, prompt = p, attempts = 0, waiting = InCall \<rparr>])"
    using s' by (simp add: queueAIRequest_def processQueue_def record_action_def)
  have b: "\<forall>t p rest. requestQueue s = (t, p) # rest \<longrightarrow>
        (\<exists>s2. run [Elapse (aiRateLimitDelay s), Timer (length (timers s))] s' = Some s2
           \<and> tasks s2 = [\<lparr> ticket = t, prompt = p, attempts = 0, waiting = InCall \<rparr>]
           \<and> requestQueue s2 = rest \<and> processingQueue s2)"
    using s' by (simp add: step_def processQueue_def record_action_def nth_append)
  from s' a b show ?thesis by blast
qed

theorem queue_never_stalls_witness:
  "\<exists>s s' s2.
      run [Submit ''a'', Submit ''b'', Respond 0 (ApiError ''503''), Elapse 1000, Wake 0,
           Respond 0 (ApiError ''503''), Elapse 2000, Wake 0] new_ai = Some s
      \<and> map attempts (tasks s) = [2] \<and> map snd (requestQueue s) = [''b'']
      \<and> step (Respond 0 (ApiError ''503'')) s = Some s'
      \<and> processingQueue s' = False \<and> timers s' = [4000]
      \<and> run [Elapse 1000, Timer 0] s' = Some s2
      \<and> map prompt (tasks s2) = [''b'']"
proof -
  let ?tk = "\<lparr> ticket = 0, prompt = ''a'', attempts = 2, waiting = InCall \<rparr>"
  obtain s where s:
    "run [Submit ''a'', Submit ''b'', Respond 0 (ApiError ''503''), Elapse 1000, Wake 0,
          Respond 0 (ApiError ''503''), Elapse 2000, Wake 0] new_ai = Some s"
    "tasks s = [?tk]" "requestQueue s = [(1, ''b'')]" "timers s = []" "clock s = 3000"
    "aiRateLimitDelay s = 1000"
    by (simp add: step_def queueAIRequest_def processQueue_def record_action_def new_ai_def
        on_response_def on_wake_def sendToGemini_def maxAttempts_def Let_def)
  have e: "ends_task (ApiError ''503'') ?tk"
    by (simp add: ends_task_def sendToGemini_def maxAttempts_def)
  from queue_never_stalls [OF s(2) _ e] s(3-6) obtain s' s2 where
    "step (Respond 0 (ApiError ''503'')) s = Some s'" "processingQueue s' = False"
    "timers s' = [4000]" "run [Elapse 1000, Timer 0] s' = Some s2"
    "tasks s2 = [\<lparr> ticket = 1, prompt = ''b'', attempts = 0, waiting = InCall \<rparr>]"
    by auto
  with s(1-3) show ?thesis by auto
qed

section \<open>The delay between two dispatches\<close>

text \<open>
  C6 at a concrete run. The first item is dispatched at time 0 and its request succeeds
  at time 100; the next item is submitted at that moment. \<open>queueAIRequest\<close> calls
  \<open>processQueue\<close> itself, the flag is clear, and the item is dispatched at time 100:
  no time passes between the end of one dispatch and the start of the next, although
  the delay is 1000.
\<close>

theorem dispatch_without_delay:
  "map_option history
     (run [Submit ''a'', Elapse 100, Respond 0 (ApiContent ''x''), Submit ''b''] new_ai)
     = Some [(0, Dispatched 0), (0, Called 0), (100, Resolved 0 ''x''), (100, Finished 0),
             (100, Dispatched 1), (100, Called 1)]
   \<and> dispatch_gaps [(0, Dispatched 0), (0, Called 0), (100, Resolved 0 ''x''), (100, Finished 0),
             (100, Dispatched 1), (100, Called 1)] = [0]
   \<and> aiRateLimitDelay new_ai = 1000"
  by (simp add: step_def queueAIRequest_def processQueue_def record_action_def new_ai_def
      on_response_def finish_task_def sendToGemini_def Let_def)

section \<open>The batch loop\<close>

text \<open>A batch: the cache lookups first, then the responses.\<close>

lemma begin_profiles_eq:
  "begin_profiles batch s =
     (map (\<lambda>u. profileCache s (username u)) batch,
      s \<lparr> trace := trace s @
            map (\<lambda>u. case profileCache s (username u) of
                       Some c \<Rightarrow> CacheHit (ProfileKey (username u))
                     | None \<Rightarrow> Get (ProfileUrl (profile_url u))) batch \<rparr>)"
proof (induction batch arbitrary: s)
  case Nil
  then show ?case by simp
next
  case (Cons u us)
  show ?case
    by (cases "profileCache s (username u)")
       (simp_all add: Cons.IH scrapeUserProfile_begin_def log_event_def)
qed

lemma end_profiles_fields:
  "end_profiles w i zs s = (xs, s') \<Longrightarrow>
   trace s' = trace s \<and> batchSize s' = batchSize s \<and> rateLimitDelay s' = rateLimitDelay s
   \<and> pageCache s' = pageCache s
   \<and> dom (profileCache s') \<subseteq> dom (profileCache s) \<union> username ` fst ` set zs"
proof (induction w i zs s arbitrary: xs s' rule: end_profiles.induct)
  case (1 w i s)
  then show ?case by simp
next
  case (2 w i u cached rest s)
  then show ?case by (auto split: prod.splits)
next
  case (3 w i u rest s)
  obtain x s1 where e: "scrapeUserProfile_end w (get_profile w i) u s = (x, s1)"
    by (cases "scrapeUserProfile_end w (get_profile w i) u s")
  obtain ys s2 where r: "end_profiles w (Suc i) rest s1 = (ys, s2)"
    by (cases "end_profiles w (Suc i) rest s1")
  from "3.prems" e r have s': "s' = s2" by simp
  have f1: "trace s1 = trace s \<and> batchSize s1 = batchSize s \<and> rateLimitDelay s1 = rateLimitDelay s
      \<and> pageCache s1 = pageCache s \<and> dom (profileCache s1) \<subseteq> insert (username u) (dom (profileCache s))"
    using e by (auto simp: scrapeUserProfile_end_def Let_def split: if_splits)
  from "3.IH"[OF e[symmetric] r] have f2: "trace s2 = trace s1 \<and> batchSize s2 = batchSize s1
      \<and> rateLimitDelay s2 = rateLimitDelay s1 \<and> pageCache s2 = pageCache s1
      \<and> dom (profileCache s2) \<subseteq> dom (profileCache s1) \<union> username ` fst ` set rest" .
  have "dom (profileCache s2) \<subseteq> dom (profileCache s) \<union> username ` fst ` set ((u, None) # rest)"
    using f1 f2 by simp blast
  with f1 f2 s' show ?case by simp
qed

lemma end_profiles_results:
  "end_profiles w i zs s = (xs, s') \<Longrightarrow>
   length xs = length zs
   \<and> (\<forall>k < length zs. xs ! k =
         (case snd (zs ! k) of
            Some c \<Rightarrow> c
          | None \<Rightarrow> profile_result w (get_profile w (i + k)) (fst (zs ! k))))"
proof (induction w i zs s arbitrary: xs s' rule: end_profiles.induct)
  case (1 w i s)
  then show ?case by simp
next
  case (2 w i u cached rest s)
  obtain ys s2 where r: "end_profiles w (Suc i) rest s = (ys, s2)"
    by (cases "end_profiles w (Suc i) rest s")
  from "2.prems" r have xs: "xs = cached # ys" by simp
  from "2.IH"[OF r] have ih: "length ys = length rest \<and> (\<forall>k < length rest. ys ! k =
         (case snd (rest ! k) of Some c \<Rightarrow> c
          | None \<Rightarrow> profile_result w (get_profile w (Suc i + k)) (fst (rest ! k))))" .
  show ?case using xs ih by (auto simp: nth_Cons split: nat.splits option.splits)
next
  case (3 w i u rest s)
  obtain x s1 where e: "scrapeUserProfile_end w (get_profile w i) u s = (x, s1)"
    by (cases "scrapeUserProfile_end w (get_profile w i) u s")
  obtain ys s2 where r: "end_profiles w (Suc i) rest s1 = (ys, s2)"
    by (cases "end_profiles w (Suc i) rest s1")
  from "3.prems" e r have xs: "xs = x # ys" by simp
  have x: "x = profile_result w (get_profile w i) u"
    using e by (simp add: scrapeUserProfile_end_def Let_def)
  from "3.IH"[OF e[symmetric] r] have ih: "length ys = length rest \<and> (\<forall>k < length rest. ys ! k =
         (case snd (rest ! k) of Some c \<Rightarrow> c
          | None \<Rightarrow> profile_result w (get_profile w (Suc i + k)) (fst (rest ! k))))" .
  show ?case using xs x ih by (auto simp: nth_Cons split: nat.splits option.splits)
qed

lemma scrape_batch_ok:
  assumes "scrape_batch w i batch s = (out, s1)" "dom (profileCache s) \<subseteq> seen"
  shows "\<exists>evs. batch_ok w seen i batch out evs \<and> trace s1 = trace s @ evs
           \<and> batchSize s1 = batchSize s \<and> rateLimitDelay s1 = rateLimitDelay s
           \<and> pageCache s1 = pageCache s
           \<and> dom (profileCache s1) \<subseteq> seen \<union> username ` set batch"
proof -
  let ?sts = "map (\<lambda>u. profileCache s (username u)) batch"
  let ?evs = "map (\<lambda>u. case profileCache s (username u) of
                       Some c \<Rightarrow> CacheHit (ProfileKey (username u))
                     | None \<Rightarrow> Get (ProfileUrl (profile_url u))) batch"
  let ?s0 = "s \<lparr> trace := trace s @ ?evs \<rparr>"
  have e: "end_profiles w i (zip batch ?sts) ?s0 = (out, s1)"
    using assms(1) by (simp add: scrape_batch_def begin_profiles_eq)
  have fz: "fst ` set (zip batch ?sts) = set batch"
    by (force simp: set_zip in_set_conv_nth image_iff)
  from end_profiles_fields[OF e] fz have f: "trace s1 = trace s @ ?evs" "batchSize s1 = batchSize s"
    "rateLimitDelay s1 = rateLimitDelay s" "pageCache s1 = pageCache s"
    "dom (profileCache s1) \<subseteq> dom (profileCache s) \<union> username ` set batch"
    by (simp_all add: image_image)
  from end_profiles_results[OF e] have r: "length out = length batch"
    "\<forall>k < length batch. out ! k =
         (case profileCache s (username (batch ! k)) of Some c \<Rightarrow> c
          | None \<Rightarrow> profile_result w (get_profile w (i + k)) (batch ! k))"
    by (simp_all split: option.splits)
  have "batch_ok w seen i batch out ?evs"
    unfolding batch_ok_def
  proof (intro conjI allI impI)
    show "length out = length batch" by (rule r(1))
    show "length ?evs = length batch" by simp
  next
    fix k assume k: "k < length batch"
    show "(?evs ! k = Get (ProfileUrl (profile_url (batch ! k)))
               \<and> out ! k = profile_result w (get_profile w (i + k)) (batch ! k))
            \<or> (?evs ! k = CacheHit (ProfileKey (username (batch ! k)))
               \<and> username (batch ! k) \<in> seen)"
    proof (cases "profileCache s (username (batch ! k))")
      case None
      then show ?thesis using k r(2) by simp
    next
      case (Some c)
      then have "username (batch ! k) \<in> seen" using assms(2) by auto
      then show ?thesis using k Some by simp
    qed
  qed
  with f assms(2) show ?thesis by blast
qed

text \<open>The loop returns for every positive batch size, and runs as specified.\<close>

lemma run_ok_Nil: "run_ok w B seen i [] out gs \<Longrightarrow> out = [] \<and> gs = []"
  by (cases gs) simp_all

lemma run_ok_nonempty: "run_ok w B seen i us out gs \<Longrightarrow> us \<noteq> [] \<Longrightarrow> gs \<noteq> []"
  by (cases gs) simp_all

lemma pauses_between_Cons:
  "gs \<noteq> [] \<Longrightarrow> pauses_between d (g # gs) = g @ Sleep d # pauses_between d gs"
  by (cases gs) simp_all

lemma batch_loop_ok:
  assumes "0 < batchSize s" "dom (profileCache s) \<subseteq> seen"
  shows "\<exists>out s' groups.
           batch_loop w users i acc s = Some (acc @ out, s')
           \<and> run_ok w (batchSize s) seen i (drop i users) out groups
           \<and> trace s' = trace s @ pauses_between (rateLimitDelay s) groups
           \<and> batchSize s' = batchSize s \<and> rateLimitDelay s' = rateLimitDelay s
           \<and> pageCache s' = pageCache s"
  using assms
proof (induction "length users - i" arbitrary: i acc s seen rule: less_induct)
  case less
  let ?B = "batchSize s" and ?d = "rateLimitDelay s"
  show ?case
  proof (cases "i < length users")
    case False
    then have "batch_loop w users i acc s = Some (acc @ [], s)"
      by (simp add: batch_loop.simps[of w users i acc s])
    moreover have "run_ok w ?B seen i (drop i users) [] []" using False by simp
    moreover have "trace s = trace s @ pauses_between ?d []" by simp
    ultimately show ?thesis by blast
  next
    case True
    let ?batch = "take ?B (drop i users)"
    obtain rs s1 where sb: "scrape_batch w i ?batch s = (rs, s1)"
      by (cases "scrape_batch w i ?batch s")
    from scrape_batch_ok[OF sb less.prems(2)] obtain evs where
      bok: "batch_ok w seen i ?batch rs evs" and t1: "trace s1 = trace s @ evs"
      and b1: "batchSize s1 = ?B" and d1: "rateLimitDelay s1 = ?d"
      and p1: "pageCache s1 = pageCache s"
      and c1: "dom (profileCache s1) \<subseteq> seen \<union> username ` set ?batch"
      by blast
    let ?s2 = "if i + ?B < length users then log_event (Sleep (rateLimitDelay s1)) s1 else s1"
    have b2: "batchSize ?s2 = ?B" and d2: "rateLimitDelay ?s2 = ?d"
      and p2: "pageCache ?s2 = pageCache s"
      using b1 d1 p1 by (simp_all add: log_event_def)
    have "profileCache ?s2 = profileCache s1" by (simp add: log_event_def)
    then have c2: "dom (profileCache ?s2) \<subseteq> seen \<union> username ` set ?batch"
      using c1 by (simp only:)
    have unfold: "batch_loop w users i acc s = batch_loop w users (i + ?B) (acc @ rs) ?s2"
      using True sb by (subst batch_loop.simps) simp
    have dec: "length users - (i + ?B) < length users - i"
      using True less.prems(1) by arith
    have pos: "0 < batchSize ?s2" using b2 less.prems(1) by simp
    from less.hyps[OF dec pos c2, of "acc @ rs"] obtain out' s' groups' where
      ih: "batch_loop w users (i + ?B) (acc @ rs) ?s2 = Some ((acc @ rs) @ out', s')"
        "run_ok w ?B (seen \<union> username ` set ?batch) (i + ?B) (drop (i + ?B) users) out' groups'"
        "trace s' = trace ?s2 @ pauses_between ?d groups'"
        "batchSize s' = ?B" "rateLimitDelay s' = ?d" "pageCache s' = pageCache s"
      using b2 d2 p2 by auto
    have lrs: "length rs = length ?batch" using bok by (simp add: batch_ok_def)
    have tk: "take ?B (rs @ out') = rs \<and> drop ?B (rs @ out') = out'"
    proof (cases "i + ?B < length users")
      case True
      then have "length rs = ?B" using lrs by simp
      then show ?thesis by simp
    next
      case False
      then have "drop (i + ?B) users = []" by simp
      with ih(2) have "out' = []" using run_ok_Nil by metis
      moreover have "length rs \<le> ?B" using lrs by simp
      ultimately show ?thesis by simp
    qed
    have dd: "drop ?B (drop i users) = drop (i + ?B) users"
      by (simp add: add.commute)
    have rok: "run_ok w ?B seen i (drop i users) (rs @ out') (evs # groups')"
      using True bok ih(2) tk dd by simp
    have tr: "trace s' = trace s @ pauses_between ?d (evs # groups')"
    proof (cases "i + ?B < length users")
      case True
      then have "drop (i + ?B) users \<noteq> []" by simp
      with ih(2) have "groups' \<noteq> []" using run_ok_nonempty by metis
      then show ?thesis using ih(3) True t1 d1 by (simp add: pauses_between_Cons log_event_def)
    next
      case False
      then have "drop (i + ?B) users = []" by simp
      with ih(2) have "groups' = []" using run_ok_Nil by metis
      then show ?thesis using ih(3) False t1 by simp
    qed
    have "batch_loop w users i acc s = Some (acc @ (rs @ out'), s')"
      using unfold ih(1) by simp
    with rok tr ih(4-6) show ?thesis by blast
  qed
qed

lemma run_ok_length: "run_ok w B seen i us out gs \<Longrightarrow> length out = length us"
proof (induction gs arbitrary: seen i us out)
  case Nil
  then show ?case by simp
next
  case (Cons g gs)
  from Cons.prems have bok: "batch_ok w seen i (take B us) (take B out) g"
    and rest: "run_ok w B (seen \<union> username ` set (take B us)) (i + B) (drop B us) (drop B out) gs"
    by simp_all
  have a: "length (take B out) = length (take B us)"
    using bok by (simp add: batch_ok_def)
  have b: "length (drop B out) = length (drop B us)"
    using Cons.IH[OF rest] .
  have "length (take B out @ drop B out) = length (take B us @ drop B us)"
    using a b by (simp only: length_append)
  then show ?case by simp
qed

lemma ceil_step:
  assumes "0 < B" "0 < (n::nat)"
  shows "(n + B - 1) div B = Suc ((n - B + B - 1) div B)"
proof -
  obtain k where n: "n = Suc k" using assms(2) by (cases n) auto
  have l: "(k + B) div B = Suc (k div B)"
    using assms(1) by (simp add: div_add_self2)
  show ?thesis
  proof (cases "B \<le> n")
    case True
    then have "n - B + B - 1 = k" using n by simp
    moreover have "n + B - 1 = k + B" using n by simp
    ultimately show ?thesis using l by (simp only:)
  next
    case False
    then have "k < B" "n - B + B - 1 < B" using n assms by simp_all
    moreover have "n + B - 1 = k + B" using n by simp
    ultimately show ?thesis using l by simp
  qed
qed

lemma run_ok_groups:
  "run_ok w B seen i us out gs \<Longrightarrow> 0 < B \<Longrightarrow>
   length gs = (length us + B - 1) div B
   \<and> (\<forall>j < length gs. list_all2 scrape_event (take B (drop (j * B) us)) (gs ! j))"
proof (induction gs arbitrary: seen i us out)
  case Nil
  then show ?case by simp
next
  case (Cons g gs)
  from Cons.prems have ne: "us \<noteq> []" and bok: "batch_ok w seen i (take B us) (take B out) g"
    and rest: "run_ok w B (seen \<union> username ` set (take B us)) (i + B) (drop B us) (drop B out) gs"
    by simp_all
  from Cons.IH[OF rest Cons.prems(2)] have
    ih1: "length gs = (length (drop B us) + B - 1) div B" and
    ih2: "\<forall>j < length gs. list_all2 scrape_event (take B (drop (j * B) (drop B us))) (gs ! j)"
    by simp_all
  have len: "length (g # gs) = (length us + B - 1) div B"
    using ih1 ceil_step[OF Cons.prems(2), of "length us"] ne by simp
  have g: "list_all2 scrape_event (take B us) g"
    using bok unfolding batch_ok_def list_all2_conv_all_nth scrape_event_def by auto
  have "\<forall>j < length (g # gs). list_all2 scrape_event (take B (drop (j * B) us)) ((g # gs) ! j)"
  proof (intro allI impI)
    fix j assume j: "j < length (g # gs)"
    show "list_all2 scrape_event (take B (drop (j * B) us)) ((g # gs) ! j)"
    proof (cases j)
      case 0
      then show ?thesis using g by simp
    next
      case (Suc j')
      then have "j' < length gs" using j by simp
      with ih2 have "list_all2 scrape_event (take B (drop (j' * B) (drop B us))) (gs ! j')" by blast
      moreover have "drop (j' * B) (drop B us) = drop (j * B) us"
        using Suc by (simp add: add.commute)
      ultimately show ?thesis using Suc by simp
    qed
  qed
  with len show ?case by blast
qed

lemma run_ok_events:
  "run_ok w B seen i us out gs \<Longrightarrow>
   length (concat gs) = length us
   \<and> (\<forall>m < length us.
        (concat gs ! m = Get (ProfileUrl (profile_url (us ! m)))
           \<and> out ! m = profile_result w (get_profile w (i + m)) (us ! m))
        \<or> (concat gs ! m = CacheHit (ProfileKey (username (us ! m)))
           \<and> username (us ! m) \<in> seen \<union> username ` set (take m us)))"
proof (induction gs arbitrary: seen i us out)
  case Nil
  then show ?case by simp
next
  case (Cons g gs)
  from Cons.prems have ne: "us \<noteq> []" and bok: "batch_ok w seen i (take B us) (take B out) g"
    and rest: "run_ok w B (seen \<union> username ` set (take B us)) (i + B) (drop B us) (drop B out) gs"
    by simp_all
  have lg: "length g = min (length us) B" using bok by (simp add: batch_ok_def)
  have lo: "length out = length us" using run_ok_length[OF Cons.prems] .
  from Cons.IH[OF rest] have
    ih1: "length (concat gs) = length (drop B us)" and
    ih2: "\<forall>m < length (drop B us).
        (concat gs ! m = Get (ProfileUrl (profile_url (drop B us ! m)))
           \<and> drop B out ! m = profile_result w (get_profile w (i + B + m)) (drop B us ! m))
        \<or> (concat gs ! m = CacheHit (ProfileKey (username (drop B us ! m)))
           \<and> username (drop B us ! m) \<in> (seen \<union> username ` set (take B us)) \<union> username ` set (take m (drop B us)))"
    by simp_all
  have len: "length (concat (g # gs)) = length us" using lg ih1 by simp
  have "\<forall>m < length us.
        (concat (g # gs) ! m = Get (ProfileUrl (profile_url (us ! m)))
           \<and> out ! m = profile_result w (get_profile w (i + m)) (us ! m))
        \<or> (concat (g # gs) ! m = CacheHit (ProfileKey (username (us ! m)))
           \<and> username (us ! m) \<in> seen \<union> username ` set (take m us))"
  proof (intro allI impI)
    fix m assume m: "m < length us"
    show "(concat (g # gs) ! m = Get (ProfileUrl (profile_url (us ! m)))
           \<and> out ! m = profile_result w (get_profile w (i + m)) (us ! m))
        \<or> (concat (g # gs) ! m = CacheHit (ProfileKey (username (us ! m)))
           \<and> username (us ! m) \<in> seen \<union> username ` set (take m us))"
    proof (cases "m < length g")
      case True
      then have mB: "m < B" and mt: "m < length (take B us)" using lg by simp_all
      from bok mt have "(g ! m = Get (ProfileUrl (profile_url (take B us ! m)))
               \<and> take B out ! m = profile_result w (get_profile w (i + m)) (take B us ! m))
            \<or> (g ! m = CacheHit (ProfileKey (username (take B us ! m)))
               \<and> username (take B us ! m) \<in> seen)"
        unfolding batch_ok_def by blast
      then show ?thesis using True mB by (auto simp: nth_append)
    next
      case False
      then have gB: "length g = B" and Bm: "B \<le> m" using lg m by (simp_all add: min_def split: if_splits)
      let ?m' = "m - B"
      have m': "?m' < length (drop B us)" using m Bm by simp
      have n1: "drop B us ! ?m' = us ! m" using Bm m by simp
      have n2: "drop B out ! ?m' = out ! m" using Bm m lo by simp
      have n3: "concat (g # gs) ! m = concat gs ! ?m'" using False gB by (simp add: nth_append)
      have n4: "i + B + ?m' = i + m" using Bm by simp
      have n5: "set (take B us) \<union> set (take ?m' (drop B us)) \<subseteq> set (take m us)"
      proof -
        have "take m us = take B us @ take ?m' (drop B us)"
          using Bm by (metis le_add_diff_inverse take_add)
        then show ?thesis by simp
      qed
      from ih2 m' have "(concat gs ! ?m' = Get (ProfileUrl (profile_url (drop B us ! ?m')))
           \<and> drop B out ! ?m' = profile_result w (get_profile w (i + B + ?m')) (drop B us ! ?m'))
        \<or> (concat gs ! ?m' = CacheHit (ProfileKey (username (drop B us ! ?m')))
           \<and> username (drop B us ! ?m') \<in> (seen \<union> username ` set (take B us)) \<union> username ` set (take ?m' (drop B us)))"
        by blast
      then show ?thesis unfolding n1 n2 n3 n4 using n5 by blast
    qed
  qed
  with len show ?case by blast
qed

lemma pauses_get: "filter is_get (pauses_between d gs) = filter is_get (concat gs)"
  by (induction d gs rule: pauses_between.induct) simp_all

lemma pauses_hit: "filter is_hit (pauses_between d gs) = filter is_hit (concat gs)"
  by (induction d gs rule: pauses_between.induct) simp_all

lemma pauses_scrapes:
  "filter (\<lambda>e. \<not> is_sleep e) (pauses_between d gs) = filter (\<lambda>e. \<not> is_sleep e) (concat gs)"
  by (induction d gs rule: pauses_between.induct) simp_all

lemma pauses_sleep:
  "\<forall>e \<in> set (concat gs). \<not> is_sleep e \<Longrightarrow>
   filter is_sleep (pauses_between d gs) = replicate (length gs - 1) (Sleep d)"
  by (induction d gs rule: pauses_between.induct) (simp_all add: filter_empty_conv)

lemma batch_loop_done:
  "\<not> i < length users \<Longrightarrow> batch_loop w users i acc s = Some (acc, s)"
  by (subst batch_loop.simps) simp

lemma batch_loop_step:
  "i < length users \<Longrightarrow>
   batch_loop w users i acc s =
     (case scrape_batch w i (take (batchSize s) (drop i users)) s of
        (batchResults, s1) \<Rightarrow>
          batch_loop w users (i + batchSize s) (acc @ batchResults)
            (if i + batchSize s < length users
             then log_event (Sleep (rateLimitDelay s1)) s1 else s1))"
  by (subst batch_loop.simps) simp

lemmas scraper_eval =
  processUserProfilesInBatches_def batch_loop_step batch_loop_done scrape_batch_def
  scrapeUserProfile_begin_def scrapeUserProfile_end_def profile_result_def profile_cached_def
  log_event_def new_scraper_def sample_user_def sample_profile_def Let_def

lemma sample_run_trace: "\<exists>out s'. processUserProfilesInBatches sample_world sample_users new_scraper = Some (out, s')
  \<and> trace s' = [Get (ProfileUrl ''https://github.com/ada''), Get (ProfileUrl ''https://github.com/bob''),
          Get (ProfileUrl ''https://github.com/cy''), Sleep 3000, Get (ProfileUrl ''https://github.com/dan'')]"
  by (simp add: scraper_eval sample_world_def sample_users_def)

lemma no_hits:
  assumes "run_ok w B seen i us out gs" "distinct (map username us)"
    "\<forall>u \<in> set us. username u \<notin> seen"
  shows "concat gs = map (\<lambda>u. Get (ProfileUrl (profile_url u))) us
       \<and> out = map (\<lambda>m. profile_result w (get_profile w (i + m)) (us ! m)) [0..<length us]"
proof -
  from run_ok_events[OF assms(1)] have len: "length (concat gs) = length us" and
    ev: "\<forall>m < length us.
        (concat gs ! m = Get (ProfileUrl (profile_url (us ! m)))
           \<and> out ! m = profile_result w (get_profile w (i + m)) (us ! m))
        \<or> (concat gs ! m = CacheHit (ProfileKey (username (us ! m)))
           \<and> username (us ! m) \<in> seen \<union> username ` set (take m us))"
    by simp_all
  have fresh: "username (us ! m) \<notin> seen \<union> username ` set (take m us)" if m: "m < length us" for m
  proof -
    have "username (us ! m) \<notin> seen" using assms(3) m by simp
    moreover have "username (us ! m) \<notin> username ` set (take m us)"
    proof
      assume "username (us ! m) \<in> username ` set (take m us)"
      then obtain k where k: "k < m" "username (us ! k) = username (us ! m)"
        using m by (auto simp: in_set_conv_nth)
      then have "map username us ! k = map username us ! m" using m by simp
      with assms(2) k(1) m show False by (simp add: distinct_conv_nth)
    qed
    ultimately show ?thesis by simp
  qed
  have g: "\<forall>m < length us. concat gs ! m = Get (ProfileUrl (profile_url (us ! m)))
             \<and> out ! m = profile_result w (get_profile w (i + m)) (us ! m)"
    using ev fresh by blast
  have lo: "length out = length us" using run_ok_length[OF assms(1)] .
  have g1: "\<And>m. m < length us \<Longrightarrow> concat gs ! m = Get (ProfileUrl (profile_url (us ! m)))"
    and g2: "\<And>m. m < length us \<Longrightarrow> out ! m = profile_result w (get_profile w (i + m)) (us ! m)"
    using g by blast+
  have "concat gs = map (\<lambda>u. Get (ProfileUrl (profile_url u))) us"
  proof (rule nth_equalityI)
    show "length (concat gs) = length (map (\<lambda>u. Get (ProfileUrl (profile_url u))) us)"
      using len by simp
  next
    fix m assume "m < length (concat gs)"
    then have "m < length us" using len by simp
    then show "concat gs ! m = map (\<lambda>u. Get (ProfileUrl (profile_url u))) us ! m"
      using g1 by simp
  qed
  moreover have "out = map (\<lambda>m. profile_result w (get_profile w (i + m)) (us ! m)) [0..<length us]"
  proof (rule nth_equalityI)
    show "length out = length (map (\<lambda>m. profile_result w (get_profile w (i + m)) (us ! m)) [0..<length us])"
      using lo by simp
  next
    fix m assume "m < length out"
    then have "m < length us" using lo by simp
    then show "out ! m = map (\<lambda>m. profile_result w (get_profile w (i + m)) (us ! m)) [0..<length us] ! m"
      using g2 by simp
  qed
  ultimately show ?thesis by blast
qed

lemma batches_run:
  assumes "0 < batchSize s"
  shows "\<exists>out s' groups.
           processUserProfilesInBatches w users s = Some (out, s')
           \<and> run_ok w (batchSize s) (dom (profileCache s)) 0 users out groups
           \<and> trace s' = trace s @ pauses_between (rateLimitDelay s) groups"
proof -
  from batch_loop_ok[OF assms subset_refl, of w users 0 "[]"] obtain out s' groups where
    "batch_loop w users 0 [] s = Some ([] @ out, s')"
    "run_ok w (batchSize s) (dom (profileCache s)) 0 (drop 0 users) out groups"
    "trace s' = trace s @ pauses_between (rateLimitDelay s) groups"
    by blast
  then have "processUserProfilesInBatches w users s = Some (out, s')
      \<and> run_ok w (batchSize s) (dom (profileCache s)) 0 users out groups
      \<and> trace s' = trace s @ pauses_between (rateLimitDelay s) groups"
    by (simp add: processUserProfilesInBatches_def)
  then show ?thesis by blast
qed

text \<open>
  C3. For every candidate list and a positive batch size, \<open>processUserProfilesInBatches\<close>
  returns, with exactly one record for each candidate, in order. A candidate whose
  profile request fails gets the record made of its own fields with
  \<open>raw_data = { error }\<close>; the only candidates without a request are those found in
  the cache, which issue none. With no candidate in the cache and no username twice in
  the list, every failed request gives the error record, and a response with an empty
  body, which is not a failed request, gives the candidate as it is.
\<close>

theorem every_candidate_has_a_record:
  assumes "0 < batchSize s"
  shows "\<exists>out s'.
      processUserProfilesInBatches w users s = Some (out, s')
      \<and> length out = length users
      \<and> (\<forall>m < length users. \<forall>msg. get_profile w m = Throws msg \<longrightarrow>
            out ! m = (users ! m) \<lparr> raw_data := RawError msg \<rparr>
            \<or> filter (\<lambda>e. \<not> is_sleep e) (drop (length (trace s)) (trace s')) ! m
                = CacheHit (ProfileKey (username (users ! m))))
      \<and> (distinct (map username users) \<and> (\<forall>u \<in> set users. profileCache s (username u) = None)
          \<longrightarrow> (\<forall>m < length users.
                 (\<forall>msg. get_profile w m = Throws msg \<longrightarrow>
                    out ! m = (users ! m) \<lparr> raw_data := RawError msg \<rparr>)
                 \<and> (get_profile w m = Body [] \<longrightarrow> out ! m = users ! m)))"
proof -
  from batches_run[OF assms, of w users] obtain out s' groups where
    r: "processUserProfilesInBatches w users s = Some (out, s')"
    and ok: "run_ok w (batchSize s) (dom (profileCache s)) 0 users out groups"
    and tr: "trace s' = trace s @ pauses_between (rateLimitDelay s) groups"
    by blast
  have len: "length out = length users" using run_ok_length[OF ok] .
  from run_ok_events[OF ok] have cl: "length (concat groups) = length users" and
    ev: "\<forall>m < length users.
        (concat groups ! m = Get (ProfileUrl (profile_url (users ! m)))
           \<and> out ! m = profile_result w (get_profile w (0 + m)) (users ! m))
        \<or> (concat groups ! m = CacheHit (ProfileKey (username (users ! m)))
           \<and> username (users ! m) \<in> dom (profileCache s) \<union> username ` set (take m users))"
    by simp_all
  have ns: "\<forall>e \<in> set (concat groups). \<not> is_sleep e"
    unfolding all_set_conv_all_nth cl
  proof (intro allI impI)
    fix m assume "m < length users"
    with ev have "concat groups ! m = Get (ProfileUrl (profile_url (users ! m)))
        \<or> concat groups ! m = CacheHit (ProfileKey (username (users ! m)))" by blast
    then show "\<not> is_sleep (concat groups ! m)" by auto
  qed
  have sc: "filter (\<lambda>e. \<not> is_sleep e) (drop (length (trace s)) (trace s')) = concat groups"
    using tr ns by (simp add: pauses_scrapes)
  have a: "\<forall>m < length users. \<forall>msg. get_profile w m = Throws msg \<longrightarrow>
            out ! m = (users ! m) \<lparr> raw_data := RawError msg \<rparr>
            \<or> filter (\<lambda>e. \<not> is_sleep e) (drop (length (trace s)) (trace s')) ! m
                = CacheHit (ProfileKey (username (users ! m)))"
  proof (intro allI impI)
    fix m msg assume m: "m < length users" and f: "get_profile w m = Throws msg"
    from ev m have "(concat groups ! m = Get (ProfileUrl (profile_url (users ! m)))
           \<and> out ! m = profile_result w (get_profile w (0 + m)) (users ! m))
        \<or> concat groups ! m = CacheHit (ProfileKey (username (users ! m)))" by blast
    then show "out ! m = (users ! m) \<lparr> raw_data := RawError msg \<rparr>
            \<or> filter (\<lambda>e. \<not> is_sleep e) (drop (length (trace s)) (trace s')) ! m
                = CacheHit (ProfileKey (username (users ! m)))"
    proof
      assume "concat groups ! m = Get (ProfileUrl (profile_url (users ! m)))
           \<and> out ! m = profile_result w (get_profile w (0 + m)) (users ! m)"
      then have "out ! m = (users ! m) \<lparr> raw_data := RawError msg \<rparr>"
        using f by (simp add: profile_result_def)
      then show ?thesis by blast
    next
      assume "concat groups ! m = CacheHit (ProfileKey (username (users ! m)))"
      then show ?thesis using sc by simp
    qed
  qed
  have b: "distinct (map username users) \<and> (\<forall>u \<in> set users. profileCache s (username u) = None)
          \<longrightarrow> (\<forall>m < length users.
                 (\<forall>msg. get_profile w m = Throws msg \<longrightarrow>
                    out ! m = (users ! m) \<lparr> raw_data := RawError msg \<rparr>)
                 \<and> (get_profile w m = Body [] \<longrightarrow> out ! m = users ! m))"
  proof (intro impI allI)
    fix m
    assume h: "distinct (map username users) \<and> (\<forall>u \<in> set users. profileCache s (username u) = None)"
      and m: "m < length users"
    have "\<forall>u \<in> set users. username u \<notin> dom (profileCache s)" using h by auto
    from no_hits[OF ok _ this] h have "out = map (\<lambda>m. profile_result w (get_profile w (0 + m)) (users ! m)) [0..<length users]"
      by blast
    then have "out ! m = map (\<lambda>m. profile_result w (get_profile w (0 + m)) (users ! m)) [0..<length users] ! m"
      by (simp only:)
    then have "out ! m = profile_result w (get_profile w m) (users ! m)" using m
      by simp
    then show "(\<forall>msg. get_profile w m = Throws msg \<longrightarrow>
                    out ! m = (users ! m) \<lparr> raw_data := RawError msg \<rparr>)
                 \<and> (get_profile w m = Body [] \<longrightarrow> out ! m = users ! m)"
      by (simp add: profile_result_def)
  qed
  from r len a b show ?thesis by blast
qed

theorem every_candidate_has_a_record_witness:
  "0 < batchSize new_scraper \<and> distinct (map username sample_users)
   \<and> get_profile sample_world 1 = Throws ''timeout''
   \<and> (\<exists>out s'. processUserProfilesInBatches sample_world sample_users new_scraper = Some (out, s')
         \<and> length out = 4
         \<and> out ! 1 = (sample_user ''bob'') \<lparr> raw_data := RawError ''timeout'' \<rparr>)"
proof -
  have b: "0 < batchSize new_scraper" by (simp add: new_scraper_def)
  have d: "distinct (map username sample_users)"
    by (simp add: sample_users_def sample_user_def)
  have c: "\<forall>u \<in> set sample_users. profileCache new_scraper (username u) = None"
    by (simp add: new_scraper_def)
  have f: "get_profile sample_world 1 = Throws ''timeout''"
    by (simp add: sample_world_def)
  from every_candidate_has_a_record [OF b, of sample_world sample_users] d c
  obtain out s' where r: "processUserProfilesInBatches sample_world sample_users new_scraper = Some (out, s')"
    "length out = length sample_users"
    "\<forall>m < length sample_users.
        (\<forall>msg. get_profile sample_world m = Throws msg \<longrightarrow>
            out ! m = (sample_users ! m) \<lparr> raw_data := RawError msg \<rparr>)
        \<and> (get_profile sample_world m = Body [] \<longrightarrow> out ! m = sample_users ! m)"
    by blast
  have l: "length sample_users = 4" "sample_users ! 1 = sample_user ''bob''"
    by (simp_all add: sample_users_def)
  have "1 < length sample_users" using l(1) by simp
  from r(3) [rule_format, OF this, THEN conjunct1, rule_format, OF f] l(2)
  have "out ! 1 = (sample_user ''bob'') \<lparr> raw_data := RawError ''timeout'' \<rparr>"
    by simp
  with b d f r(1,2) l(1) show ?thesis by auto
qed

text \<open>The cache after a batch, and the events of the loop, exactly.\<close>

lemma end_profiles_cache:
  "end_profiles w i zs s = (xs, s') \<Longrightarrow>
   (profileCache s' x \<noteq> None) =
     (profileCache s x \<noteq> None
      \<or> (\<exists>k < length zs. snd (zs ! k) = None \<and> username (fst (zs ! k)) = x
             \<and> profile_cached w (get_profile w (i + k))))"
proof (induction w i zs s arbitrary: xs s' rule: end_profiles.induct)
  case (1 w i s)
  then show ?case by simp
next
  case (2 w i u cached rest s)
  obtain ys s2 where r: "end_profiles w (Suc i) rest s = (ys, s2)"
    by (cases "end_profiles w (Suc i) rest s")
  from "2.prems" r have s': "s' = s2" by simp
  from "2.IH"[OF r] s' show ?case by (simp add: Ex_less_Suc2)
next
  case (3 w i u rest s)
  obtain y s1 where e: "scrapeUserProfile_end w (get_profile w i) u s = (y, s1)"
    by (cases "scrapeUserProfile_end w (get_profile w i) u s")
  obtain ys s2 where r: "end_profiles w (Suc i) rest s1 = (ys, s2)"
    by (cases "end_profiles w (Suc i) rest s1")
  from "3.prems" e r have s': "s' = s2" by simp
  have c1: "(profileCache s1 x \<noteq> None) =
      (profileCache s x \<noteq> None \<or> (username u = x \<and> profile_cached w (get_profile w i)))"
    using e by (auto simp: scrapeUserProfile_end_def Let_def split: if_splits)
  from "3.IH"[OF e[symmetric] r] c1 s' show ?case by (auto simp: Ex_less_Suc2)
qed

lemma scrape_batch_trace:
  assumes "scrape_batch w i batch s = (out, s1)"
  shows "trace s1 = trace s @
            map (\<lambda>u. case profileCache s (username u) of
                       Some c \<Rightarrow> CacheHit (ProfileKey (username u))
                     | None \<Rightarrow> Get (ProfileUrl (profile_url u))) batch
         \<and> batchSize s1 = batchSize s \<and> rateLimitDelay s1 = rateLimitDelay s
         \<and> (\<forall>x. (profileCache s1 x \<noteq> None) =
                (profileCache s x \<noteq> None
                 \<or> (\<exists>k < length batch. username (batch ! k) = x
                        \<and> profile_cached w (get_profile w (i + k)))))"
proof -
  let ?sts = "map (\<lambda>u. profileCache s (username u)) batch"
  let ?evs = "map (\<lambda>u. case profileCache s (username u) of
                       Some c \<Rightarrow> CacheHit (ProfileKey (username u))
                     | None \<Rightarrow> Get (ProfileUrl (profile_url u))) batch"
  let ?s0 = "s \<lparr> trace := trace s @ ?evs \<rparr>"
  have e: "end_profiles w i (zip batch ?sts) ?s0 = (out, s1)"
    using assms by (simp add: scrape_batch_def begin_profiles_eq)
  from end_profiles_fields[OF e] have f: "trace s1 = trace s @ ?evs" "batchSize s1 = batchSize s"
    "rateLimitDelay s1 = rateLimitDelay s"
    by simp_all
  have c: "(profileCache s1 x \<noteq> None) =
                (profileCache s x \<noteq> None
                 \<or> (\<exists>k < length batch. username (batch ! k) = x
                        \<and> profile_cached w (get_profile w (i + k))))" for x
  proof -
    have "(profileCache s1 x \<noteq> None) =
       (profileCache s x \<noteq> None
        \<or> (\<exists>k < length batch. profileCache s (username (batch ! k)) = None
               \<and> username (batch ! k) = x \<and> profile_cached w (get_profile w (i + k))))"
      using end_profiles_cache[OF e, of x] by (simp cong: conj_cong)
    then show ?thesis by auto
  qed
  from f c show ?thesis by blast
qed

lemma ceil_less_iff:
  assumes "0 < (B::nat)"
  shows "(j < (M + B - 1) div B) = (j * B < M)"
proof -
  have "(Suc j \<le> (M + B - 1) div B) = (Suc j * B \<le> M + B - 1)"
    using assms by (simp add: less_eq_div_iff_mult_less_eq)
  also have "\<dots> = (j * B < M)" using assms by auto
  finally show ?thesis by (simp add: Suc_le_eq)
qed

lemma batch_events_eq:
  assumes B: "0 < batchSize s0" and i: "i = j * batchSize s0" and lt: "i < length users"
    and inv: "\<forall>x. (profileCache s x \<noteq> None) =
        (profileCache s0 x \<noteq> None
         \<or> (\<exists>k < i. k < length users \<and> username (users ! k) = x
                \<and> profile_cached w (get_profile w k)))"
  shows "map (\<lambda>u. case profileCache s (username u) of
                       Some c \<Rightarrow> CacheHit (ProfileKey (username u))
                     | None \<Rightarrow> Get (ProfileUrl (profile_url u)))
           (take (batchSize s0) (drop i users))
         = map (scrape_event_at w s0 users) [i..<min (i + batchSize s0) (length users)]"
proof (rule nth_equalityI)
  let ?B = "batchSize s0"
  show "length (map (\<lambda>u. case profileCache s (username u) of
                       Some c \<Rightarrow> CacheHit (ProfileKey (username u))
                     | None \<Rightarrow> Get (ProfileUrl (profile_url u)))
           (take ?B (drop i users)))
       = length (map (scrape_event_at w s0 users) [i..<min (i + ?B) (length users)])"
    using lt by (auto simp: min_def)
next
  let ?B = "batchSize s0"
  fix k
  assume "k < length (map (\<lambda>u. case profileCache s (username u) of
                       Some c \<Rightarrow> CacheHit (ProfileKey (username u))
                     | None \<Rightarrow> Get (ProfileUrl (profile_url u)))
           (take ?B (drop i users)))"
  then have kB: "k < ?B" and kM: "i + k < length users" by auto
  have u: "take ?B (drop i users) ! k = users ! (i + k)" using kB kM by simp
  have "(i + k) div ?B = j" using i kB by simp
  then have range: "((i + k) div ?B) * ?B = i" using i by simp
  have "hit_at w s0 users (i + k) =
      (profileCache s0 (username (users ! (i + k))) \<noteq> None
       \<or> (\<exists>k' < i. username (users ! k') = username (users ! (i + k))
              \<and> profile_cached w (get_profile w k')))"
    unfolding hit_at_def range by (auto simp: list_ex_iff)
  also have "\<dots> = (profileCache s (username (users ! (i + k))) \<noteq> None)"
    using inv lt by auto
  finally have h: "hit_at w s0 users (i + k) = (profileCache s (username (users ! (i + k))) \<noteq> None)" .
  have idx: "[i..<min (i + ?B) (length users)] ! k = i + k" using kB kM by simp
  have kl: "k < length [i..<min (i + ?B) (length users)]" using kB kM by simp
  show "map (\<lambda>u. case profileCache s (username u) of
                       Some c \<Rightarrow> CacheHit (ProfileKey (username u))
                     | None \<Rightarrow> Get (ProfileUrl (profile_url u)))
           (take ?B (drop i users)) ! k
       = map (scrape_event_at w s0 users) [i..<min (i + ?B) (length users)] ! k"
    using kB kM u h kl idx
    by (cases "profileCache s (username (users ! (i + k)))")
       (simp_all add: scrape_event_at_def del: upt_Suc)
qed

lemma ex_split:
  "(\<exists>k < i + (B::nat). Q k) = ((\<exists>k < i. Q k) \<or> (\<exists>k. i \<le> k \<and> k < i + B \<and> Q k))"
proof
  assume "\<exists>k < i + B. Q k"
  then obtain k where k: "k < i + B" "Q k" by blast
  show "(\<exists>k < i. Q k) \<or> (\<exists>k. i \<le> k \<and> k < i + B \<and> Q k)"
  proof (cases "k < i")
    case True
    then show ?thesis using k by blast
  next
    case False
    then have "i \<le> k" by simp
    then show ?thesis using k by blast
  qed
next
  assume "(\<exists>k < i. Q k) \<or> (\<exists>k. i \<le> k \<and> k < i + B \<and> Q k)"
  then show "\<exists>k < i + B. Q k"
  proof
    assume "\<exists>k < i. Q k"
    then obtain k where "k < i" "Q k" by blast
    then have "k < i + B \<and> Q k" by simp
    then show ?thesis by blast
  next
    assume "\<exists>k. i \<le> k \<and> k < i + B \<and> Q k"
    then show ?thesis by blast
  qed
qed

lemma batch_loop_trace:
  assumes "0 < batchSize s0" "batchSize s = batchSize s0" "rateLimitDelay s = rateLimitDelay s0"
    and "i = j * batchSize s0"
    and "\<forall>x. (profileCache s x \<noteq> None) =
        (profileCache s0 x \<noteq> None
         \<or> (\<exists>k < i. k < length users \<and> username (users ! k) = x
                \<and> profile_cached w (get_profile w k)))"
  shows "\<exists>out s'.
           batch_loop w users i acc s = Some (acc @ out, s')
           \<and> trace s' = trace s @
               pauses_between (rateLimitDelay s0)
                 (map (\<lambda>j. map (scrape_event_at w s0 users)
                              [j * batchSize s0..<min (j * batchSize s0 + batchSize s0) (length users)])
                    [j..<(length users + batchSize s0 - 1) div batchSize s0])"
  using assms
proof (induction "length users - i" arbitrary: i j acc s rule: less_induct)
  case less
  let ?B = "batchSize s0" and ?d = "rateLimitDelay s0" and ?M = "length users"
  let ?n = "(?M + ?B - 1) div ?B"
  let ?grp = "\<lambda>j. map (scrape_event_at w s0 users) [j * ?B..<min (j * ?B + ?B) ?M]"
  note B = less.prems(1) and bs = less.prems(2) and ds = less.prems(3) and i = less.prems(4)
    and inv = less.prems(5)
  show ?case
  proof (cases "i < ?M")
    case False
    then have "\<not> j < ?n" using ceil_less_iff[OF B, of j ?M] i by simp
    then have e: "[j..<?n] = []" by simp
    have "batch_loop w users i acc s = Some (acc @ [], s)"
      using False by (simp add: batch_loop.simps[of w users i acc s])
    moreover have "trace s = trace s @ pauses_between ?d (map ?grp [j..<?n])"
      unfolding e by simp
    ultimately show ?thesis by blast
  next
    case True
    let ?batch = "take ?B (drop i users)"
    obtain rs s1 where sb: "scrape_batch w i ?batch s = (rs, s1)"
      by (cases "scrape_batch w i ?batch s")
    from scrape_batch_trace[OF sb] batch_events_eq[OF B i True inv]
    have t1: "trace s1 = trace s @ ?grp j" and b1: "batchSize s1 = ?B" and d1: "rateLimitDelay s1 = ?d"
      and c1: "\<forall>x. (profileCache s1 x \<noteq> None) =
                (profileCache s x \<noteq> None
                 \<or> (\<exists>k < length ?batch. username (?batch ! k) = x
                        \<and> profile_cached w (get_profile w (i + k))))"
      using bs ds i by simp_all
    let ?s2 = "if i + ?B < ?M then log_event (Sleep (rateLimitDelay s1)) s1 else s1"
    have b2: "batchSize ?s2 = ?B" and d2: "rateLimitDelay ?s2 = ?d"
      and p2: "profileCache ?s2 = profileCache s1"
      using b1 d1 by (simp_all add: log_event_def)
    have inv2: "\<forall>x. (profileCache ?s2 x \<noteq> None) =
        (profileCache s0 x \<noteq> None
         \<or> (\<exists>k < i + ?B. k < ?M \<and> username (users ! k) = x
                \<and> profile_cached w (get_profile w k)))"
    proof
      fix x
      have "(\<exists>k < length ?batch. username (?batch ! k) = x \<and> profile_cached w (get_profile w (i + k)))
          = (\<exists>k. i \<le> k \<and> k < i + ?B \<and> k < ?M \<and> username (users ! k) = x
                \<and> profile_cached w (get_profile w k))"
      proof
        assume "\<exists>k < length ?batch. username (?batch ! k) = x \<and> profile_cached w (get_profile w (i + k))"
        then obtain k where k: "k < length ?batch" "username (?batch ! k) = x"
          "profile_cached w (get_profile w (i + k))" by blast
        then have kk: "k < ?B" "i + k < ?M" by auto
        then have "?batch ! k = users ! (i + k)" by simp
        moreover note kk
        ultimately show "\<exists>k. i \<le> k \<and> k < i + ?B \<and> k < ?M \<and> username (users ! k) = x
                \<and> profile_cached w (get_profile w k)"
          using k by (intro exI[of _ "i + k"]) simp
      next
        assume "\<exists>k. i \<le> k \<and> k < i + ?B \<and> k < ?M \<and> username (users ! k) = x
                \<and> profile_cached w (get_profile w k)"
        then obtain k where k: "i \<le> k" "k < i + ?B" "k < ?M" "username (users ! k) = x"
          "profile_cached w (get_profile w k)" by blast
        then have "k - i < length ?batch" by auto
        moreover have "?batch ! (k - i) = users ! k" using k by simp
        moreover have "i + (k - i) = k" using k by simp
        ultimately show "\<exists>k < length ?batch. username (?batch ! k) = x
            \<and> profile_cached w (get_profile w (i + k))"
          using k by (intro exI[of _ "k - i"]) simp
      qed
      then have "(profileCache ?s2 x \<noteq> None) =
        (profileCache s0 x \<noteq> None
         \<or> (\<exists>k < i. k < ?M \<and> username (users ! k) = x \<and> profile_cached w (get_profile w k))
         \<or> (\<exists>k. i \<le> k \<and> k < i + ?B \<and> k < ?M \<and> username (users ! k) = x
                \<and> profile_cached w (get_profile w k)))"
        using c1 inv p2 by simp
      also have "\<dots> = (profileCache s0 x \<noteq> None
         \<or> (\<exists>k < i + ?B. k < ?M \<and> username (users ! k) = x
                \<and> profile_cached w (get_profile w k)))"
        using ex_split[of i ?B "\<lambda>k. k < ?M \<and> username (users ! k) = x
                \<and> profile_cached w (get_profile w k)"] by simp
      finally show "(profileCache ?s2 x \<noteq> None) =
        (profileCache s0 x \<noteq> None
         \<or> (\<exists>k < i + ?B. k < ?M \<and> username (users ! k) = x
                \<and> profile_cached w (get_profile w k)))" .
    qed
    have unfold: "batch_loop w users i acc s = batch_loop w users (i + ?B) (acc @ rs) ?s2"
      using True sb bs by (subst batch_loop.simps) simp
    have dec: "?M - (i + ?B) < ?M - i" using True B by arith
    have i2: "i + ?B = Suc j * ?B" using i by simp
    from less.hyps[OF dec B b2 d2 i2 inv2, of "acc @ rs"] obtain out' s' where
      ih: "batch_loop w users (i + ?B) (acc @ rs) ?s2 = Some ((acc @ rs) @ out', s')"
        "trace s' = trace ?s2 @ pauses_between ?d (map ?grp [Suc j..<?n])"
      by blast
    have jn: "j < ?n" using ceil_less_iff[OF B, of j ?M] i True by simp
    then have up: "[j..<?n] = j # [Suc j..<?n]" by (simp add: upt_conv_Cons)
    have more: "(i + ?B < ?M) = (Suc j < ?n)"
      using ceil_less_iff[OF B, of "Suc j" ?M] i2 by (simp add: add.commute)
    have tr: "trace s' = trace s @ pauses_between ?d (map ?grp [j..<?n])"
    proof (cases "i + ?B < ?M")
      case True
      then have "map ?grp [Suc j..<?n] \<noteq> []" using more by simp
      then have "pauses_between ?d (?grp j # map ?grp [Suc j..<?n])
          = ?grp j @ Sleep ?d # pauses_between ?d (map ?grp [Suc j..<?n])"
        by (rule pauses_between_Cons)
      then show ?thesis using ih(2) True t1 d1 unfolding up by (simp add: log_event_def)
    next
      case False
      then have e2: "[Suc j..<?n] = []" using more by simp
      show ?thesis using ih(2) False t1 unfolding up e2 by simp
    qed
    have "batch_loop w users i acc s = Some (acc @ (rs @ out'), s')"
      using unfold ih(1) by simp
    with tr show ?thesis by blast
  qed
qed

lemma concat_chunks:
  assumes "0 < (B::nat)"
  shows "concat (map (\<lambda>j. map f [j * B..<min (j * B + B) M]) [0..<n]) = map f [0..<min (n * B) M]"
proof (induction n)
  case 0
  then show ?case by simp
next
  case (Suc n)
  have "[0..<min (n * B) M] @ [n * B..<min (n * B + B) M] = [0..<min (Suc n * B) M]"
  proof (cases "n * B \<le> M")
    case True
    then have "n * B \<le> min (n * B + B) M" by simp
    then obtain d where d: "min (n * B + B) M = n * B + d" using le_Suc_ex by blast
    have "[0..<min (n * B + B) M] = [0..<n * B] @ [n * B..<min (n * B + B) M]"
      unfolding d using upt_add_eq_append[of 0 "n * B" d] by simp
    then show ?thesis using True by (simp add: min_def add.commute)
  next
    case False
    then show ?thesis by (simp add: min_def)
  qed
  then have "map f [0..<min (n * B) M] @ map f [n * B..<min (n * B + B) M] = map f [0..<min (Suc n * B) M]"
    by (metis map_append)
  then show ?case using Suc by simp
qed

lemma scheduled_concat:
  assumes "0 < batchSize s"
  shows "concat (scheduled_groups w s users) = map (scrape_event_at w s users) [0..<length users]"
proof -
  let ?B = "batchSize s" and ?M = "length users"
  have "\<not> ((?M + ?B - 1) div ?B) * ?B < ?M"
    using ceil_less_iff[OF assms, of "(?M + ?B - 1) div ?B" ?M] by simp
  then have "min (((?M + ?B - 1) div ?B) * ?B) ?M = ?M" by simp
  then show ?thesis
    unfolding scheduled_groups_def using concat_chunks[OF assms, of "scrape_event_at w s users" ?M "(?M + ?B - 1) div ?B"]
    by simp
qed

lemma batches_trace:
  assumes "0 < batchSize s"
  shows "\<exists>out s'. processUserProfilesInBatches w users s = Some (out, s')
           \<and> trace s' = trace s @ pauses_between (rateLimitDelay s) (scheduled_groups w s users)"
proof -
  have "\<forall>x. (profileCache s x \<noteq> None) =
        (profileCache s x \<noteq> None
         \<or> (\<exists>k < 0. k < length users \<and> username (users ! k) = x
                \<and> profile_cached w (get_profile w k)))" by simp
  from batch_loop_trace[OF assms refl refl _ this, of 0 "[]"]
  show ?thesis by (simp add: processUserProfilesInBatches_def scheduled_groups_def)
qed

lemma scrape_event_at_kinds:
  "is_get (scrape_event_at w s users m) = (\<not> hit_at w s users m)"
  "is_hit (scrape_event_at w s users m) = hit_at w s users m"
  "\<not> is_sleep (scrape_event_at w s users m)"
  by (simp_all add: scrape_event_at_def)

lemma cold_no_hit:
  assumes "distinct (map username users)" "\<forall>u \<in> set users. profileCache s (username u) = None"
    "m < length users"
  shows "\<not> hit_at w s users m"
proof
  assume "hit_at w s users m"
  moreover have "profileCache s (username (users ! m)) = None" using assms(2,3) by simp
  ultimately obtain k where k: "k < (m div batchSize s) * batchSize s"
    "username (users ! k) = username (users ! m)"
    by (auto simp: hit_at_def list_ex_iff)
  have "(m div batchSize s) * batchSize s \<le> m" by simp
  with k(1) have km: "k < m" by (rule less_le_trans)
  then have "map username users ! k = map username users ! m" using k(2) assms(3) by simp
  with assms(1,3) km show False by (simp add: distinct_conv_nth)
qed

text \<open>
  C5, amended. For every candidate list of size \<open>M\<close> and batch size \<open>B \<ge> 1\<close> the
  loop runs \<open>M\<close> profile scrapes in \<open>ceil(M/B)\<close> batches, batch \<open>j\<close> holding the
  candidates from position \<open>j*B\<close> on. The scrape of a candidate issues one request,
  unless the candidate is in the cache when its batch starts (its username was cached
  before the call, or a candidate of an earlier batch with that username was scraped
  and stored): then it issues none. The trace of the loop is exactly these events,
  batch after batch, so requests and cache hits together are \<open>M\<close>, and the requests
  alone are \<open>M\<close> when no candidate is cached and no username occurs twice. A sleep of
  \<open>rateLimitDelay\<close> lies between two consecutive batches, none inside a batch and
  none after the last one.
\<close>

theorem batch_schedule:
  assumes "0 < batchSize s"
  shows "\<exists>out s'.
      processUserProfilesInBatches w users s = Some (out, s')
    \<and> trace s' = trace s @ pauses_between (rateLimitDelay s) (scheduled_groups w s users)
    \<and> length (scheduled_groups w s users) = (length users + batchSize s - 1) div batchSize s
    \<and> (\<forall>j < length (scheduled_groups w s users).
          scheduled_groups w s users ! j =
            map (scrape_event_at w s users)
              [j * batchSize s..<min (j * batchSize s + batchSize s) (length users)])
    \<and> (\<forall>m < length users.
          scrape_event_at w s users m =
            (if profileCache s (username (users ! m)) \<noteq> None
                \<or> (\<exists>k < (m div batchSize s) * batchSize s.
                       username (users ! k) = username (users ! m)
                       \<and> profile_cached w (get_profile w k))
             then CacheHit (ProfileKey (username (users ! m)))
             else Get (ProfileUrl (profile_url (users ! m)))))
    \<and> filter (\<lambda>e. \<not> is_sleep e) (pauses_between (rateLimitDelay s) (scheduled_groups w s users))
        = map (scrape_event_at w s users) [0..<length users]
    \<and> length (filter is_get (pauses_between (rateLimitDelay s) (scheduled_groups w s users)))
        + length (filter is_hit (pauses_between (rateLimitDelay s) (scheduled_groups w s users)))
        = length users
    \<and> filter is_sleep (pauses_between (rateLimitDelay s) (scheduled_groups w s users))
        = replicate (length (scheduled_groups w s users) - 1) (Sleep (rateLimitDelay s))
    \<and> (distinct (map username users) \<and> (\<forall>u \<in> set users. profileCache s (username u) = None)
        \<longrightarrow> filter is_get (pauses_between (rateLimitDelay s) (scheduled_groups w s users))
             = map (\<lambda>u. Get (ProfileUrl (profile_url u))) users)"
proof -
  let ?d = "rateLimitDelay s" and ?B = "batchSize s" and ?M = "length users"
  let ?gs = "scheduled_groups w s users"
  let ?ev = "scrape_event_at w s users"
  from batches_trace[OF assms, of w users] obtain out s' where
    r: "processUserProfilesInBatches w users s = Some (out, s')"
    and tr: "trace s' = trace s @ pauses_between ?d ?gs"
    by blast
  have gl: "length ?gs = (?M + ?B - 1) div ?B"
    by (simp add: scheduled_groups_def)
  have gj: "\<forall>j < length ?gs. ?gs ! j = map ?ev [j * ?B..<min (j * ?B + ?B) ?M]"
    by (simp add: scheduled_groups_def del: upt_Suc)
  have evm: "\<forall>m < ?M. ?ev m =
            (if profileCache s (username (users ! m)) \<noteq> None
                \<or> (\<exists>k < (m div ?B) * ?B.
                       username (users ! k) = username (users ! m)
                       \<and> profile_cached w (get_profile w k))
             then CacheHit (ProfileKey (username (users ! m)))
             else Get (ProfileUrl (profile_url (users ! m))))"
    by (auto simp: scrape_event_at_def hit_at_def list_ex_iff)
  have cc: "concat ?gs = map ?ev [0..<?M]" using scheduled_concat[OF assms] .
  have ns: "\<forall>e \<in> set (concat ?gs). \<not> is_sleep e"
    unfolding cc by (auto simp: scrape_event_at_kinds)
  have sc: "filter (\<lambda>e. \<not> is_sleep e) (pauses_between ?d ?gs) = map ?ev [0..<?M]"
    unfolding pauses_scrapes cc by (simp add: scrape_event_at_kinds del: upt_Suc)
  have g: "filter is_get (pauses_between ?d ?gs) = map ?ev (filter (\<lambda>m. \<not> hit_at w s users m) [0..<?M])"
    unfolding pauses_get cc by (simp add: filter_map comp_def scrape_event_at_kinds del: upt_Suc)
  have h: "filter is_hit (pauses_between ?d ?gs) = map ?ev (filter (hit_at w s users) [0..<?M])"
    unfolding pauses_hit cc by (simp add: filter_map comp_def scrape_event_at_kinds del: upt_Suc)
  have cnt: "length (filter is_get (pauses_between ?d ?gs))
        + length (filter is_hit (pauses_between ?d ?gs)) = ?M"
    unfolding g h using sum_length_filter_compl[of "hit_at w s users" "[0..<?M]"]
    by (simp add: add.commute del: upt_Suc)
  have sl: "filter is_sleep (pauses_between ?d ?gs) = replicate (length ?gs - 1) (Sleep ?d)"
    using pauses_sleep[OF ns] .
  have cold: "distinct (map username users) \<and> (\<forall>u \<in> set users. profileCache s (username u) = None)
        \<longrightarrow> filter is_get (pauses_between ?d ?gs)
             = map (\<lambda>u. Get (ProfileUrl (profile_url u))) users"
  proof
    assume c: "distinct (map username users) \<and> (\<forall>u \<in> set users. profileCache s (username u) = None)"
    then have nh: "\<forall>m \<in> set [0..<?M]. \<not> hit_at w s users m"
      using cold_no_hit[of users s _ w] by simp
    then have "filter (\<lambda>m. \<not> hit_at w s users m) [0..<?M] = [0..<?M]"
      by (simp only: filter_True)
    then have "filter is_get (pauses_between ?d ?gs) = map ?ev [0..<?M]"
      using g by (simp only:)
    also have "\<dots> = map (\<lambda>u. Get (ProfileUrl (profile_url u))) users"
    proof (rule nth_equalityI)
      show "length (map ?ev [0..<?M]) = length (map (\<lambda>u. Get (ProfileUrl (profile_url u))) users)"
        by simp
    next
      fix m assume "m < length (map ?ev [0..<?M])"
      then have m: "m < ?M" by simp
      then have "\<not> hit_at w s users m" using nh by simp
      then show "map ?ev [0..<?M] ! m = map (\<lambda>u. Get (ProfileUrl (profile_url u))) users ! m"
        using m by (simp add: scrape_event_at_def del: upt_Suc)
    qed
    finally show "filter is_get (pauses_between ?d ?gs)
             = map (\<lambda>u. Get (ProfileUrl (profile_url u))) users" .
  qed
  from r tr gl gj evm sc cnt sl cold show ?thesis by blast
qed

theorem batch_schedule_witness:
  "0 < batchSize new_scraper
   \<and> (\<exists>out s'.
        processUserProfilesInBatches sample_world sample_users new_scraper = Some (out, s')
        \<and> trace s' = pauses_between 3000 (scheduled_groups sample_world new_scraper sample_users)
        \<and> length (scheduled_groups sample_world new_scraper sample_users) = 2
        \<and> trace s' = [Get (ProfileUrl ''https://github.com/ada''),
                       Get (ProfileUrl ''https://github.com/bob''),
                       Get (ProfileUrl ''https://github.com/cy''), Sleep 3000,
                       Get (ProfileUrl ''https://github.com/dan'')])
   \<and> 0 < batchSize warm_scraper
   \<and> profileCache warm_scraper (username ([sample_user ''ada''] ! 0)) \<noteq> None
   \<and> (\<exists>out s'.
        processUserProfilesInBatches sample_world [sample_user ''ada''] warm_scraper = Some (out, s')
        \<and> trace s' = trace warm_scraper @ [CacheHit (ProfileKey ''ada'')])"
proof -
  have b: "0 < batchSize new_scraper" by (simp add: new_scraper_def)
  from batch_schedule [OF b, of sample_world sample_users] obtain out s' where
    r: "processUserProfilesInBatches sample_world sample_users new_scraper = Some (out, s')"
    "trace s' = trace new_scraper @ pauses_between (rateLimitDelay new_scraper)
        (scheduled_groups sample_world new_scraper sample_users)"
    "length (scheduled_groups sample_world new_scraper sample_users)
       = (length sample_users + batchSize new_scraper - 1) div batchSize new_scraper"
    by blast
  have g: "length (scheduled_groups sample_world new_scraper sample_users) = 2"
    using r(3) by (simp add: sample_users_def new_scraper_def)
  have t: "trace s' = pauses_between 3000 (scheduled_groups sample_world new_scraper sample_users)"
    using r(2) by (simp add: new_scraper_def)
  obtain out1 s1 where e: "processUserProfilesInBatches sample_world sample_users new_scraper = Some (out1, s1)"
    "trace s1 = [Get (ProfileUrl ''https://github.com/ada''), Get (ProfileUrl ''https://github.com/bob''),
          Get (ProfileUrl ''https://github.com/cy''), Sleep 3000, Get (ProfileUrl ''https://github.com/dan'')]"
    using sample_run_trace by blast
  from r(1) e have x: "trace s' = [Get (ProfileUrl ''https://github.com/ada''), Get (ProfileUrl ''https://github.com/bob''),
          Get (ProfileUrl ''https://github.com/cy''), Sleep 3000, Get (ProfileUrl ''https://github.com/dan'')]"
    by simp
  have first: "\<exists>out s'.
        processUserProfilesInBatches sample_world sample_users new_scraper = Some (out, s')
        \<and> trace s' = pauses_between 3000 (scheduled_groups sample_world new_scraper sample_users)
        \<and> length (scheduled_groups sample_world new_scraper sample_users) = 2
        \<and> trace s' = [Get (ProfileUrl ''https://github.com/ada''),
                       Get (ProfileUrl ''https://github.com/bob''),
                       Get (ProfileUrl ''https://github.com/cy''), Sleep 3000,
                       Get (ProfileUrl ''https://github.com/dan'')]"
    using r(1) g t x by blast
  have bw: "0 < batchSize warm_scraper" by (simp add: warm_scraper_def new_scraper_def)
  have cw: "profileCache warm_scraper (username ([sample_user ''ada''] ! 0)) \<noteq> None"
    by (simp add: warm_scraper_def sample_user_def)
  from batch_schedule [OF bw, of sample_world "[sample_user ''ada'']"] obtain out2 s2 where
    r2: "processUserProfilesInBatches sample_world [sample_user ''ada''] warm_scraper = Some (out2, s2)"
    "trace s2 = trace warm_scraper @ pauses_between (rateLimitDelay warm_scraper)
        (scheduled_groups sample_world warm_scraper [sample_user ''ada''])"
    by blast
  have "scheduled_groups sample_world warm_scraper [sample_user ''ada''] = [[CacheHit (ProfileKey ''ada'')]]"
    by (simp add: scheduled_groups_def scrape_event_at_def hit_at_def warm_scraper_def
        new_scraper_def sample_user_def)
  with r2 have second: "\<exists>out s'.
        processUserProfilesInBatches sample_world [sample_user ''ada''] warm_scraper = Some (out, s')
        \<and> trace s' = trace warm_scraper @ [CacheHit (ProfileKey ''ada'')]"
    by simp
  from b first bw cw second show ?thesis by blast
qed

text \<open>
  C5 as stated fails once a candidate is in the cache. The first run over the sample
  candidate issues one request and caches the profile; the second run over the same
  list, by the same scraper, is a cache hit: one candidate and no request.
\<close>

theorem batch_schedule_counterexample:
  "processUserProfilesInBatches sample_world [sample_user ''ada''] new_scraper
     = Some ([ada_profile], warm_scraper)
   \<and> processUserProfilesInBatches sample_world [sample_user ''ada''] warm_scraper
     = Some ([ada_profile],
             warm_scraper \<lparr> trace := [Get (ProfileUrl ''https://github.com/ada''),
                                      CacheHit (ProfileKey ''ada'')] \<rparr>)
   \<and> filter is_get [CacheHit (ProfileKey ''ada'')] = []"
  by (simp add: scraper_eval sample_world_def warm_scraper_def ada_profile_def)

section \<open>Search pages\<close>

text \<open>What each page contributes depends on its own cache entry and response only.\<close>

lemma page_end_fst:
  "fst (scrapeUsersPage_end w r query p s) = fst (scrapeUsersPage_end w r query p s')"
  by (simp add: scrapeUsersPage_end_def split: response.splits sum.splits)

lemma page_end_fields:
  "scrapeUsersPage_end w r query p s = (x, s1) \<Longrightarrow>
   batchSize s1 = batchSize s \<and> profileCache s1 = profileCache s"
  by (auto simp: scrapeUsersPage_end_def log_event_def split: response.splits sum.splits if_splits)

lemma begin_pages_eq:
  "begin_pages query ps s =
     (map (\<lambda>p. (p, pageCache s (query, p))) ps,
      s \<lparr> trace := trace s @
            map (\<lambda>p. case pageCache s (query, p) of
                       Some c \<Rightarrow> CacheHit (UsersKey query p)
                     | None \<Rightarrow> Get (SearchUrl query p)) ps \<rparr>)"
proof (induction ps arbitrary: s)
  case Nil
  then show ?case by simp
next
  case (Cons p ps)
  show ?case
    by (cases "pageCache s (query, p)")
       (simp_all add: Cons.IH scrapeUsersPage_begin_def log_event_def)
qed

lemma end_pages_results:
  "end_pages w query zs s = (xs, s') \<Longrightarrow>
   xs = map (\<lambda>z. case snd z of
                    Some c \<Rightarrow> c
                  | None \<Rightarrow> fst (scrapeUsersPage_end w (get_page w (fst z)) query (fst z) s0)) zs
   \<and> batchSize s' = batchSize s \<and> profileCache s' = profileCache s"
proof (induction w query zs s arbitrary: xs s' rule: end_pages.induct)
  case (1 w query s)
  then show ?case by simp
next
  case (2 w query page cached rest s)
  obtain ys s2 where r: "end_pages w query rest s = (ys, s2)"
    by (cases "end_pages w query rest s")
  from "2.prems" r have xs: "xs = cached # ys" "s' = s2" by simp_all
  from "2.IH"[OF r] xs show ?case by simp
next
  case (3 w query page rest s)
  obtain x s1 where e: "scrapeUsersPage_end w (get_page w page) query page s = (x, s1)"
    by (cases "scrapeUsersPage_end w (get_page w page) query page s")
  obtain ys s2 where r: "end_pages w query rest s1 = (ys, s2)"
    by (cases "end_pages w query rest s1")
  from "3.prems" e r have xs: "xs = x # ys" "s' = s2" by simp_all
  have x: "x = fst (scrapeUsersPage_end w (get_page w page) query page s0)"
    using e page_end_fst[of w "get_page w page" query page s s0] by simp
  from "3.IH"[OF e[symmetric] r] xs x page_end_fields[OF e] show ?case by simp
qed

lemma fetchAllUsers_eq:
  "\<exists>s2. fetchAllUsers w query pages s =
          (concat (map (page_users w s query) [1..<Suc pages]), s2)
        \<and> batchSize s2 = batchSize s \<and> profileCache s2 = profileCache s"
proof -
  let ?ps = "[1..<Suc pages]"
  let ?s1 = "s \<lparr> trace := trace s @
            map (\<lambda>p. case pageCache s (query, p) of
                       Some c \<Rightarrow> CacheHit (UsersKey query p)
                     | None \<Rightarrow> Get (SearchUrl query p)) ?ps \<rparr>"
  obtain xs s2 where e: "end_pages w query (map (\<lambda>p. (p, pageCache s (query, p))) ?ps) ?s1 = (xs, s2)"
    by (cases "end_pages w query (map (\<lambda>p. (p, pageCache s (query, p))) ?ps) ?s1")
  from end_pages_results[OF e, of s] have
    xs: "xs = map (page_users w s query) ?ps" and f: "batchSize s2 = batchSize s"
      "profileCache s2 = profileCache s"
    by (simp_all add: page_users_def comp_def del: upt_Suc split: option.splits cong: map_cong)
  have "fetchAllUsers w query pages s = (concat xs, s2)"
    using e by (simp add: fetchAllUsers_def begin_pages_eq del: upt_Suc)
  with xs f show ?thesis by blast
qed

lemma page_users_log: "page_users w (log_event e s) query p = page_users w s query p"
  using page_end_fst[of w "get_page w p" query p "log_event e s" s]
  by (simp add: page_users_def log_event_def split: option.splits)

lemma page_users_failed:
  "pageCache s (query, k) = None \<Longrightarrow> get_page w k = Throws msg \<Longrightarrow> page_users w s query k = []"
  by (simp add: page_users_def scrapeUsersPage_end_def)

lemma page_users_body:
  "pageCache s (query, k) = None \<Longrightarrow> get_page w k = Body d \<Longrightarrow> d \<noteq> [] \<Longrightarrow>
   load_users w d = Inr us \<Longrightarrow> page_users w s query k = us"
  by (simp add: page_users_def scrapeUsersPage_end_def)

lemma page_users_other:
  "p \<noteq> k \<Longrightarrow> page_users (w \<lparr> get_page := (get_page w)(k := r) \<rparr>) s query p = page_users w s query p"
  by (simp add: page_users_def scrapeUsersPage_end_def
      split: option.splits response.splits sum.splits)

text \<open>
  C7. For every query and page count, a page whose request fails contributes the empty
  list, the result of \<open>fetchAllUsers\<close> is the concatenation of what the other pages
  contribute, and what they contribute does not depend on the response of the failed
  page. With two pages, one failing and one yielding three candidates (and the
  connectivity test passed), \<open>fetchAllUsers\<close> returns these three candidates and
  \<open>searchUsers\<close> goes on to the profile batches, which return three records.
\<close>

theorem failed_page_is_empty:
  "(\<forall>k msg. 1 \<le> k \<and> k \<le> pages \<and> pageCache s (query, k) = None \<and> get_page w k = Throws msg \<longrightarrow>
       page_users w s query k = []
       \<and> fst (fetchAllUsers w query pages s)
           = concat (map (\<lambda>p. if p = k then [] else page_users w s query p) [1..<Suc pages])
       \<and> (\<forall>r p. p \<noteq> k \<longrightarrow>
             page_users (w \<lparr> get_page := (get_page w)(k := r) \<rparr>) s query p = page_users w s query p))
   \<and> (\<forall>k j msg d c1 c2 c3 h.
         (k = 1 \<and> j = 2 \<or> k = 2 \<and> j = 1)
         \<and> pageCache s (query, 1) = None \<and> pageCache s (query, 2) = None
         \<and> get_page w k = Throws msg
         \<and> get_page w j = Body d \<and> d \<noteq> [] \<and> load_users w d = Inr [c1, c2, c3]
         \<and> get_home w = Body h \<and> h \<noteq> [] \<and> \<not> invalid_query (QString query) \<and> 0 < batchSize s
         \<longrightarrow> (\<exists>s2. fetchAllUsers w query 2 (log_event (Get HomeUrl) s) = ([c1, c2, c3], s2)
                \<and> searchUsers w (QString query) 2 s
                    = map_option (\<lambda>(detailedUsers, s3). (Fulfilled detailedUsers, s3))
                        (processUserProfilesInBatches w [c1, c2, c3] s2)
                \<and> (\<exists>detailedUsers s3.
                      searchUsers w (QString query) 2 s = Some (Fulfilled detailedUsers, s3)
                      \<and> length detailedUsers = 3)))"
proof (intro conjI allI impI)
  fix k msg
  assume h: "1 \<le> k \<and> k \<le> pages \<and> pageCache s (query, k) = None \<and> get_page w k = Throws msg"
  then have e: "page_users w s query k = []" using page_users_failed by blast
  show "page_users w s query k = []" by (rule e)
  have "map (page_users w s query) [1..<Suc pages]
      = map (\<lambda>p. if p = k then [] else page_users w s query p) [1..<Suc pages]"
    using e by (intro map_cong refl) simp
  moreover obtain s2 where "fetchAllUsers w query pages s =
          (concat (map (page_users w s query) [1..<Suc pages]), s2)"
    using fetchAllUsers_eq[of w query pages s] by blast
  ultimately show "fst (fetchAllUsers w query pages s)
           = concat (map (\<lambda>p. if p = k then [] else page_users w s query p) [1..<Suc pages])"
    by (simp only: fst_conv)
next
  fix k :: nat and msg :: string and r :: response and p :: nat
  assume "p \<noteq> k"
  then show "page_users (w \<lparr> get_page := (get_page w)(k := r) \<rparr>) s query p = page_users w s query p"
    by (rule page_users_other)
next
  fix k j msg d c1 c2 c3 h
  assume a: "(k = 1 \<and> j = 2 \<or> k = 2 \<and> j = 1)
         \<and> pageCache s (query, 1) = None \<and> pageCache s (query, 2) = None
         \<and> get_page w k = Throws msg
         \<and> get_page w j = Body d \<and> d \<noteq> [] \<and> load_users w d = Inr [c1, c2, c3]
         \<and> get_home w = Body h \<and> h \<noteq> [] \<and> \<not> invalid_query (QString query) \<and> 0 < batchSize s"
  let ?s1 = "log_event (Get HomeUrl) s"
  have ck: "pageCache s (query, k) = None" and cj: "pageCache s (query, j) = None"
    using a by auto
  have pk: "page_users w ?s1 query k = []"
    using page_users_failed[OF ck, of w msg] a by (simp add: page_users_log)
  have pj: "page_users w ?s1 query j = [c1, c2, c3]"
    using page_users_body[OF cj, of w d "[c1, c2, c3]"] a by (simp add: page_users_log)
  have two: "[1..<Suc 2] = [1, 2]" by (simp add: upt_rec)
  have cc: "concat (map (page_users w ?s1 query) [1..<Suc 2]) = [c1, c2, c3]"
    using a pk pj unfolding two by auto
  from fetchAllUsers_eq[of w query 2 ?s1] cc obtain s2 where
    f: "fetchAllUsers w query 2 ?s1 = ([c1, c2, c3], s2)" and b2: "batchSize s2 = batchSize ?s1"
    by auto
  have conn: "testGitHubConnectivity w s = (Fulfilled True, ?s1)"
    using a by (simp add: testGitHubConnectivity_def)
  have su: "searchUsers w (QString query) 2 s
                    = map_option (\<lambda>(detailedUsers, s3). (Fulfilled detailedUsers, s3))
                        (processUserProfilesInBatches w [c1, c2, c3] s2)"
    using a conn f by (simp add: searchUsers_def split: option.splits)
  have pos: "0 < batchSize s2" using b2 a by (simp add: log_event_def)
  from batches_run[OF pos, of w "[c1, c2, c3]"] obtain out s3 groups where
    r: "processUserProfilesInBatches w [c1, c2, c3] s2 = Some (out, s3)"
    and ok: "run_ok w (batchSize s2) (dom (profileCache s2)) 0 [c1, c2, c3] out groups"
    by blast
  have "length out = 3" using run_ok_length[OF ok] by simp
  with su r have "\<exists>detailedUsers s3.
                      searchUsers w (QString query) 2 s = Some (Fulfilled detailedUsers, s3)
                      \<and> length detailedUsers = 3" by simp
  with f su show "\<exists>s2. fetchAllUsers w query 2 (log_event (Get HomeUrl) s) = ([c1, c2, c3], s2)
                \<and> searchUsers w (QString query) 2 s
                    = map_option (\<lambda>(detailedUsers, s3). (Fulfilled detailedUsers, s3))
                        (processUserProfilesInBatches w [c1, c2, c3] s2)
                \<and> (\<exists>detailedUsers s3.
                      searchUsers w (QString query) 2 s = Some (Fulfilled detailedUsers, s3)
                      \<and> length detailedUsers = 3)" by blast
qed

theorem failed_page_is_empty_witness:
  "get_page sample_world 1 = Throws ''timeout''
   \<and> get_page sample_world 2 = Body ''<html>''
   \<and> load_users sample_world ''<html>'' = Inr [sample_user ''ada'', sample_user ''bob'', sample_user ''cy'']
   \<and> page_users sample_world new_scraper ''rust developer'' 1 = []
   \<and> (\<exists>s2. fetchAllUsers sample_world ''rust developer'' 2 (log_event (Get HomeUrl) new_scraper)
            = ([sample_user ''ada'', sample_user ''bob'', sample_user ''cy''], s2))
   \<and> (\<exists>detailedUsers s3.
         searchUsers sample_world (QString ''rust developer'') 2 new_scraper
           = Some (Fulfilled detailedUsers, s3)
         \<and> length detailedUsers = 3)"
proof -
  let ?q = "''rust developer''"
  have g: "get_page sample_world 1 = Throws ''timeout''" "get_page sample_world 2 = Body ''<html>''"
    "load_users sample_world ''<html>'' = Inr [sample_user ''ada'', sample_user ''bob'', sample_user ''cy'']"
    by (simp_all add: sample_world_def)
  have h1: "1 \<le> (1::nat) \<and> (1::nat) \<le> 2 \<and> pageCache new_scraper (?q, 1) = None
      \<and> get_page sample_world 1 = Throws ''timeout''"
    by (simp add: sample_world_def new_scraper_def)
  have h2: "((1::nat) = 1 \<and> (2::nat) = 2 \<or> (1::nat) = 2 \<and> (2::nat) = 1)
         \<and> pageCache new_scraper (?q, 1) = None \<and> pageCache new_scraper (?q, 2) = None
         \<and> get_page sample_world 1 = Throws ''timeout''
         \<and> get_page sample_world 2 = Body ''<html>'' \<and> ''<html>'' \<noteq> []
         \<and> load_users sample_world ''<html>'' = Inr [sample_user ''ada'', sample_user ''bob'', sample_user ''cy'']
         \<and> get_home sample_world = Body ''<html>'' \<and> ''<html>'' \<noteq> []
         \<and> \<not> invalid_query (QString ?q) \<and> 0 < batchSize new_scraper"
    by (simp add: sample_world_def new_scraper_def invalid_query_def trim_def is_space_def)
  note t = failed_page_is_empty [of 2 new_scraper ?q sample_world]
  from t [THEN conjunct1, rule_format, OF h1]
  have a: "page_users sample_world new_scraper ?q 1 = []" by blast
  from t [THEN conjunct2, rule_format, OF h2]
  have b: "\<exists>s2. fetchAllUsers sample_world ?q 2 (log_event (Get HomeUrl) new_scraper)
            = ([sample_user ''ada'', sample_user ''bob'', sample_user ''cy''], s2)"
    and c: "\<exists>detailedUsers s3.
         searchUsers sample_world (QString ?q) 2 new_scraper = Some (Fulfilled detailedUsers, s3)
         \<and> length detailedUsers = 3"
    by blast+
  from g a b c show ?thesis by simp
qed

section \<open>Invalid queries\<close>

lemma trim_empty_iff: "trim str = [] \<longleftrightarrow> list_all is_space str"
proof
  assume "trim str = []"
  then have "dropWhile is_space (rev (dropWhile is_space str)) = []"
    by (simp add: trim_def)
  then have a: "\<forall>c \<in> set (dropWhile is_space str). is_space c"
    by (simp add: dropWhile_eq_Nil_conv)
  have "dropWhile is_space str = []"
  proof (rule ccontr)
    assume n: "dropWhile is_space str \<noteq> []"
    then have "\<not> is_space (hd (dropWhile is_space str))" by (rule hd_dropWhile)
    moreover have "hd (dropWhile is_space str) \<in> set (dropWhile is_space str)" using n by simp
    ultimately show False using a by blast
  qed
  then show "list_all is_space str" by (simp add: dropWhile_eq_Nil_conv list_all_iff)
next
  assume "list_all is_space str"
  then have d: "dropWhile is_space str = []" by (simp add: dropWhile_eq_Nil_conv list_all_iff)
  show "trim str = []" unfolding trim_def d by simp
qed

text \<open>
  C9, amended. A query is invalid when it is not a string, is empty or consists of
  white space only. For every invalid query \<open>searchUsers\<close> returns at once: its promise
  is fulfilled with the empty list and the scraper is left as it was, so no request
  has been issued. No failure is reported to the caller: the result is the one of a
  search that found nobody.
\<close>

theorem invalid_query_no_fetch:
  "invalid_query q = (q = QOther \<or> (\<exists>str. q = QString str \<and> list_all is_space str))
   \<and> (invalid_query q \<longrightarrow> searchUsers w q pages s = Some (Fulfilled [], s))"
proof (cases q)
  case (QString str)
  have "(str = [] \<or> length (trim str) = 0) = list_all is_space str"
    using trim_empty_iff[of str] by (cases str) auto
  then show ?thesis using QString by (simp add: invalid_query_def searchUsers_def)
next
  case QOther
  then show ?thesis by (simp add: invalid_query_def searchUsers_def)
qed

theorem invalid_query_no_fetch_witness:
  "invalid_query (QString ''   '')
   \<and> searchUsers sample_world (QString ''   '') 3 new_scraper = Some (Fulfilled [], new_scraper)
   \<and> trace new_scraper = []"
proof -
  have i: "invalid_query (QString ''   '')"
    by (simp add: invalid_query_def trim_def is_space_def)
  from invalid_query_no_fetch [of "QString ''   ''" sample_world 3 new_scraper] i
  have "searchUsers sample_world (QString ''   '') 3 new_scraper = Some (Fulfilled [], new_scraper)"
    by blast
  with i show ?thesis by (simp add: new_scraper_def)
qed

text \<open>
  C9 as stated fails in that nothing is reported: for the empty query the promise is
  fulfilled with \<open>[]\<close>, as it is for a valid query whose page has no candidates.
\<close>

theorem invalid_query_no_fetch_counterexample:
  "searchUsers sample_world (QString []) 1 new_scraper = Some (Fulfilled [], new_scraper)
   \<and> map_option fst (searchUsers quiet_world (QString ''rust'') 1 new_scraper) = Some (Fulfilled [])"
  by (simp add: searchUsers_def invalid_query_def trim_def is_space_def testGitHubConnectivity_def
      fetchAllUsers_def scrapeUsersPage_begin_def scrapeUsersPage_end_def log_event_def
      sample_world_def quiet_world_def new_scraper_def)

end
